theory Spec2Isabelle
  imports Main "HOL-Library.AList"
begin

section \<open>The component core of the player toolkit (src/js/component.js)\<close>

text \<open>
  The class \<^verbatim>\<open>Component\<close> of \<^verbatim>\<open>src/js/component.js\<close> is embedded as functions on an
  explicit object store. Objects are addressed by references (\<open>cid\<close> for components,
  \<open>eid\<close> for DOM elements), so that two components can hold each other's listeners and
  the aliasing the code relies on is visible.

  \<^item> A JavaScript exception is the left injection of a sum: every method returns
    \<open>error + state\<close> (or \<open>error + (value \<times> state)\<close>).
  \<^item> Function values are a datatype \<open>fnref\<close>: one constructor for each closure that
    \<^verbatim>\<open>component.js\<close> creates (\<^verbatim>\<open>removeOnDispose\<close>, \<^verbatim>\<open>cleanRemover\<close>, the timers'
    \<^verbatim>\<open>disposeFn\<close>, the result of \<^verbatim>\<open>Fn.bind\<close>) and one, \<open>User k\<close>, for the functions a
    caller passes in. The body of a caller's function is not known; calling it is
    recorded in the trace and changes nothing else.
  \<^item> The field \<open>trace\<close> of the state is an observation log. It records which functions
    were called, which events were dispatched and which steps of a teardown ran, in the
    order in which they happened. The code does not read it.
  \<^item> Recursion over the component tree goes through the store, which may be cyclic, so
    \<open>dispose\<close> and the constructor take a recursion budget and report \<open>OutOfFuel\<close>
    when it is used up.
  \<^item> \<^verbatim>\<open>utils/events.js\<close>, \<^verbatim>\<open>utils/fn.js\<close>, \<^verbatim>\<open>utils/dom.js\<close>, \<^verbatim>\<open>utils/guid.js\<close>,
    \<^verbatim>\<open>utils/merge-options.js\<close> and \<^verbatim>\<open>utils/to-title-case.js\<close> are imported by
    \<^verbatim>\<open>component.js\<close> but are not among the sources. Their functions are modelled from
    the specification; each such definition says so.
  \<^item> Event types are single strings (the array form of \<^verbatim>\<open>on\<close>/\<^verbatim>\<open>off\<close> is left out), a
    child is always a component, and a class is its name and its prototype options:
    the overrides of subclasses (element factories, \<^verbatim>\<open>Button.addChild\<close>'s warning) are
    not part of the model. The \<^verbatim>\<open>Player\<close> class is not among the sources either, so no
    owner has \<^verbatim>\<open>play\<close> or \<^verbatim>\<open>reportUserActivity\<close>.
  \<^item> A field that the source writes with a trailing underscore (\<^verbatim>\<open>el_\<close>, \<^verbatim>\<open>children_\<close>)
    is written with a prime here (\<open>el'\<close>, \<open>children'\<close>).
\<close>

subsection \<open>Values\<close>

type_synonym cid = nat
type_synonym eid = nat

datatype error = TypeError | OutOfFuel

text \<open>The field \<^verbatim>\<open>el_\<close>: never assigned, assigned \<^verbatim>\<open>null\<close> by \<^verbatim>\<open>dispose\<close>, or an element.\<close>

datatype elref = Undefined | Null | El eid

text \<open>
  The \<^verbatim>\<open>guid\<close> property of a function: a number from \<^verbatim>\<open>Guid.newGUID()\<close>, or one of the
  strings \<^verbatim>\<open>vjs-timeout-N\<close> and \<^verbatim>\<open>vjs-interval-N\<close>.
\<close>

datatype guid = GNum nat | GTimeout nat | GInterval nat

datatype target = TComp cid | TElem eid

datatype timer_kind = Timeout | Interval

datatype fnref =
    User nat
  | Bound cid fnref guid
  | RemoveOnDispose cid target string fnref guid
  | CleanRemover cid fnref guid
  | TimerDispose timer_kind nat
  | EmptyFn guid

datatype step =
    Called nat "cid option"
  | Dispatched eid string bool
  | ChildrenNulled cid
  | ListenersCleared eid
  | Detached eid
  | DataReleased eid
  | ElNulled cid

text \<open>Option values, as far as the code inspects them.\<close>

datatype jsval =
    JUndefined | JNull | JBool bool | JNum int | JStr string | JElem eid
  | JObj "(string \<times> jsval) list" | JArr "jsval list"

record cls =
  clsName :: string
  protoOptions :: jsval

record element =
  parentNode :: "eid option"
  elemId :: string
  handlers :: "string \<Rightarrow> (guid \<times> fnref) list"

record component =
  player' :: "cid option"
  options' :: jsval
  id' :: string
  name' :: "string option"
  el' :: elref
  contentEl' :: "eid option"
  children' :: "cid list option"
  childIndex' :: "(string \<rightharpoonup> cid option) option"
  childNameIndex' :: "(string \<rightharpoonup> cid option) option"
  readyQueue' :: "fnref list option"
  isReady' :: bool
  named :: "string \<rightharpoonup> cid"

record state =
  comps :: "cid \<rightharpoonup> component"
  els :: "eid \<rightharpoonup> element"
  nextCid :: cid
  nextEid :: eid
  fguid :: "nat \<rightharpoonup> guid"
  guidCount :: nat
  timers :: "nat \<rightharpoonup> timer_kind \<times> fnref"
  nextTimer :: nat
  components' :: "(string \<rightharpoonup> cls) option"
  videojs :: "(string \<rightharpoonup> cls) option"
  warnings :: "string list"
  trace :: "step list"

definition updComp :: "cid \<Rightarrow> (component \<Rightarrow> component) \<Rightarrow> state \<Rightarrow> state" where
  "updComp c f s = s\<lparr>comps := (comps s)(c := map_option f (comps s c))\<rparr>"

definition updEl :: "eid \<Rightarrow> (element \<Rightarrow> element) \<Rightarrow> state \<Rightarrow> state" where
  "updEl e f s = s\<lparr>els := (els s)(e := map_option f (els s e))\<rparr>"

definition emit :: "step list \<Rightarrow> state \<Rightarrow> state" where
  "emit xs s = s\<lparr>trace := trace s @ xs\<rparr>"

definition bindE :: "error + 'a \<Rightarrow> ('a \<Rightarrow> error + 'b) \<Rightarrow> error + 'b" where
  "bindE m f = (case m of Inl e \<Rightarrow> Inl e | Inr x \<Rightarrow> f x)"

text \<open>\<^verbatim>\<open>this.el_\<close>, read through a reference.\<close>

definition el :: "state \<Rightarrow> cid \<Rightarrow> elref" where
  "el s c = (case comps s c of None \<Rightarrow> Undefined | Some r \<Rightarrow> el' r)"

definition children :: "state \<Rightarrow> cid \<Rightarrow> cid list option" where
  "children s c = (case comps s c of None \<Rightarrow> None | Some r \<Rightarrow> children' r)"

subsection \<open>Guids and \<^verbatim>\<open>Fn.bind\<close>\<close>

text \<open>
  Modelled from the spec: \<^verbatim>\<open>Guid.newGUID\<close> and \<^verbatim>\<open>Fn.bind\<close> (utils/guid.js, utils/fn.js)
  are missing. The specification has the wrapper "tagged with a stable identity derived
  from the original handler": binding gives the original function a fresh guid if it has
  none, and the wrapper carries the same guid.
\<close>

definition newGUID :: "state \<Rightarrow> nat \<times> state" where
  "newGUID s = (guidCount s, s\<lparr>guidCount := Suc (guidCount s)\<rparr>)"

fun guid_of :: "state \<Rightarrow> fnref \<Rightarrow> guid option" where
  "guid_of s (User k) = fguid s k"
| "guid_of s (Bound c f g) = Some g"
| "guid_of s (RemoveOnDispose c t ty f g) = Some g"
| "guid_of s (CleanRemover c f g) = Some g"
| "guid_of s (TimerDispose Timeout n) = Some (GTimeout n)"
| "guid_of s (TimerDispose Interval n) = Some (GInterval n)"
| "guid_of s (EmptyFn g) = Some g"

definition ensure_guid :: "fnref \<Rightarrow> state \<Rightarrow> guid \<times> state" where
  "ensure_guid f s =
     (case guid_of s f of
        Some g \<Rightarrow> (g, s)
      | None \<Rightarrow>
          (case f of
             User k \<Rightarrow> (GNum (guidCount s),
                        s\<lparr>guidCount := Suc (guidCount s), fguid := (fguid s)(k \<mapsto> GNum (guidCount s))\<rparr>)
           | _ \<Rightarrow> (GNum 0, s)))"

definition Fn_bind :: "cid \<Rightarrow> fnref \<Rightarrow> state \<Rightarrow> fnref \<times> state" where
  "Fn_bind ctx f s = (let (g, s') = ensure_guid f s in (Bound ctx f g, s'))"

subsection \<open>The event helpers\<close>

text \<open>
  Modelled from the spec: \<^verbatim>\<open>Events.on\<close>, \<^verbatim>\<open>Events.off\<close> and \<^verbatim>\<open>Events.trigger\<close>
  (utils/events.js) are missing. From the specification: listeners are kept per element
  and event type and fire in registration order; a listener is removed by the identity
  tag of the function given to \<^verbatim>\<open>off\<close>; \<^verbatim>\<open>off\<close> without a function removes every
  listener of the type, and without a type every listener of the element; \<^verbatim>\<open>trigger\<close>
  dispatches synchronously on the element; listening or dispatching on an absent element
  fails fast.
\<close>

definition Events_on :: "elref \<Rightarrow> string \<Rightarrow> fnref \<Rightarrow> state \<Rightarrow> error + state" where
  "Events_on r ty f s =
     (case r of
        El e \<Rightarrow>
          (case els s e of
             None \<Rightarrow> Inl TypeError
           | Some x \<Rightarrow>
               (let (g, s1) = ensure_guid f s
                in Inr (updEl e (\<lambda>x. x\<lparr>handlers := (handlers x)(ty := handlers x ty @ [(g, f)])\<rparr>) s1)))
      | _ \<Rightarrow> Inl TypeError)"

definition Events_off :: "elref \<Rightarrow> string option \<Rightarrow> fnref option \<Rightarrow> state \<Rightarrow> error + state" where
  "Events_off r ty fn s =
     (case r of
        El e \<Rightarrow>
          (case els s e of
             None \<Rightarrow> Inl TypeError
           | Some x \<Rightarrow>
               (case ty of
                  None \<Rightarrow> Inr (emit [ListenersCleared e] (updEl e (\<lambda>x. x\<lparr>handlers := (\<lambda>t. [])\<rparr>) s))
                | Some t \<Rightarrow>
                    (case fn of
                       None \<Rightarrow> Inr (updEl e (\<lambda>x. x\<lparr>handlers := (handlers x)(t := [])\<rparr>) s)
                     | Some f \<Rightarrow>
                         (case guid_of s f of
                            None \<Rightarrow> Inr s
                          | Some g \<Rightarrow>
                              Inr (updEl e (\<lambda>x. x\<lparr>handlers :=
                                     (handlers x)(t := filter (\<lambda>h. fst h \<noteq> g) (handlers x t))\<rparr>) s)))))
      | _ \<Rightarrow> Inl TypeError)"

subsection \<open>\<^verbatim>\<open>on\<close> and \<^verbatim>\<open>off\<close>\<close>

text \<open>
  \<^verbatim>\<open>on(first, second, third)\<close> has two forms. \<open>Component_on\<close> is the form whose first
  argument is the event type; \<open>Component_on_target\<close> is the form whose first argument is
  another component or an element. The same holds for \<^verbatim>\<open>off\<close>, where the type and the
  function of the first form may be left out.
\<close>

definition Component_on :: "cid \<Rightarrow> string \<Rightarrow> fnref \<Rightarrow> state \<Rightarrow> error + state" where
  "Component_on c ty f s = (let (fn, s1) = Fn_bind c f s in Events_on (el s1 c) ty fn s1)"

definition Component_on_target :: "cid \<Rightarrow> target \<Rightarrow> string \<Rightarrow> fnref \<Rightarrow> state \<Rightarrow> error + state" where
  "Component_on_target c tgt ty third s =
     (let (fn, s1) = Fn_bind c third s;
          g = (case fn of Bound _ _ g \<Rightarrow> g | _ \<Rightarrow> GNum 0);
          removeOnDispose = RemoveOnDispose c tgt ty fn g;
          cleanRemover = CleanRemover c removeOnDispose g
      in bindE (Component_on c ''dispose'' removeOnDispose s1) (\<lambda>s2.
           (case tgt of
              TElem e \<Rightarrow>
                bindE (Events_on (El e) ty fn s2) (\<lambda>s3. Events_on (El e) ''dispose'' cleanRemover s3)
            | TComp t \<Rightarrow>
                bindE (Component_on t ty fn s2) (\<lambda>s3. Component_on t ''dispose'' cleanRemover s3))))"

definition Component_off :: "cid \<Rightarrow> string option \<Rightarrow> fnref option \<Rightarrow> state \<Rightarrow> error + state" where
  "Component_off c ty fn s = Events_off (el s c) ty fn s"

definition Component_off_target :: "cid \<Rightarrow> target \<Rightarrow> string \<Rightarrow> fnref \<Rightarrow> state \<Rightarrow> error + state" where
  "Component_off_target c tgt ty third s =
     (let (fn, s1) = Fn_bind c third s
      in bindE (Component_off c (Some ''dispose'') (Some fn) s1) (\<lambda>s2.
           (case tgt of
              TElem e \<Rightarrow>
                bindE (Events_off (El e) (Some ty) (Some fn) s2) (\<lambda>s3.
                  Events_off (El e) (Some ''dispose'') (Some fn) s3)
            | TComp t \<Rightarrow>
                bindE (Component_off t (Some ty) (Some fn) s2) (\<lambda>s3.
                  Component_off t (Some ''dispose'') (Some fn) s3))))"

subsection \<open>Timers\<close>

text \<open>
  The platform's timers (\<^verbatim>\<open>window.setTimeout\<close> and friends) are a table of pending
  callbacks. Scheduling adds an entry under a fresh id, cancelling removes it, and the
  platform fires only entries that are pending.
\<close>

definition window_setTimer :: "timer_kind \<Rightarrow> fnref \<Rightarrow> state \<Rightarrow> nat \<times> state" where
  "window_setTimer k f s =
     (nextTimer s, s\<lparr>timers := (timers s)(nextTimer s \<mapsto> (k, f)), nextTimer := Suc (nextTimer s)\<rparr>)"

definition window_clearTimer :: "nat \<Rightarrow> state \<Rightarrow> state" where
  "window_clearTimer n s = s\<lparr>timers := (timers s)(n := None)\<rparr>"


definition Component_clearTimeout :: "cid \<Rightarrow> nat \<Rightarrow> state \<Rightarrow> error + (nat \<times> state)" where
  "Component_clearTimeout c timeoutId s =
     bindE (Component_off c (Some ''dispose'') (Some (EmptyFn (GTimeout timeoutId)))
              (window_clearTimer timeoutId s)) (\<lambda>s1.
       Inr (timeoutId, s1))"


definition Component_clearInterval :: "cid \<Rightarrow> nat \<Rightarrow> state \<Rightarrow> error + (nat \<times> state)" where
  "Component_clearInterval c intervalId s =
     bindE (Component_off c (Some ''dispose'') (Some (EmptyFn (GInterval intervalId)))
              (window_clearTimer intervalId s)) (\<lambda>s1.
       Inr (intervalId, s1))"

subsection \<open>Calling a function value, dispatching an event\<close>

text \<open>
  \<open>call f this s\<close> runs the body of \<open>f\<close>. The arrow functions \<^verbatim>\<open>removeOnDispose\<close> and
  \<^verbatim>\<open>cleanRemover\<close> use the component that created them; the timers' \<^verbatim>\<open>disposeFn\<close> is an
  ordinary function and uses the receiver it is called with.
\<close>

fun call :: "fnref \<Rightarrow> cid option \<Rightarrow> state \<Rightarrow> error + state" where
  "call (User k) this s = Inr (emit [Called k this] s)"
| "call (Bound ctx f g) this s = call f (Some ctx) s"
| "call (RemoveOnDispose c tgt ty f g) this s = Component_off_target c tgt ty f s"
| "call (CleanRemover c removeOnDispose g) this s =
     Component_off c (Some ''dispose'') (Some removeOnDispose) s"
| "call (TimerDispose k n) this s =
     (case this of
        None \<Rightarrow> Inl TypeError
      | Some c \<Rightarrow>
          map_sum id snd
            (case k of Timeout \<Rightarrow> Component_clearTimeout c n s
                     | Interval \<Rightarrow> Component_clearInterval c n s))"
| "call (EmptyFn g) this s = Inr s"

fun runHandlers :: "(guid \<times> fnref) list \<Rightarrow> state \<Rightarrow> error + state" where
  "runHandlers [] s = Inr s"
| "runHandlers (h # hs) s = bindE (call (snd h) None s) (runHandlers hs)"

text \<open>
  Modelled from the spec: \<^verbatim>\<open>Events.trigger\<close>. The listeners registered for the type at
  the moment of the dispatch are called in registration order.
\<close>

definition Events_trigger :: "elref \<Rightarrow> string \<Rightarrow> bool \<Rightarrow> state \<Rightarrow> error + state" where
  "Events_trigger r ty bubbles s =
     (case r of
        El e \<Rightarrow>
          (case els s e of
             None \<Rightarrow> Inl TypeError
           | Some x \<Rightarrow> runHandlers (handlers x ty) (emit [Dispatched e ty bubbles] s))
      | _ \<Rightarrow> Inl TypeError)"

definition Component_trigger :: "cid \<Rightarrow> string \<Rightarrow> bool \<Rightarrow> state \<Rightarrow> error + state" where
  "Component_trigger c ty bubbles s = Events_trigger (el s c) ty bubbles s"


subsection \<open>\<^verbatim>\<open>ready\<close> and \<^verbatim>\<open>triggerReady\<close>\<close>

fun callAll :: "fnref list \<Rightarrow> cid \<Rightarrow> state \<Rightarrow> error + state" where
  "callAll [] c s = Inr s"
| "callAll (f # fs) c s = bindE (call f (Some c) s) (callAll fs c)"

definition Component_ready :: "cid \<Rightarrow> fnref option \<Rightarrow> state \<Rightarrow> error + state" where
  "Component_ready c fn s =
     (case fn of
        None \<Rightarrow> Inr s
      | Some f \<Rightarrow>
          (case comps s c of
             None \<Rightarrow> Inl TypeError
           | Some r \<Rightarrow>
               if isReady' r then call f (Some c) s
               else Inr (updComp c (\<lambda>r. r\<lparr>readyQueue' :=
                      Some ((case readyQueue' r of None \<Rightarrow> [] | Some q \<Rightarrow> q) @ [f])\<rparr>) s)))"

definition Component_triggerReady :: "cid \<Rightarrow> state \<Rightarrow> error + state" where
  "Component_triggerReady c s =
     (let s1 = updComp c (\<lambda>r. r\<lparr>isReady' := True\<rparr>) s
      in case comps s1 c of
           None \<Rightarrow> Inl TypeError
         | Some r \<Rightarrow>
             (case readyQueue' r of
                None \<Rightarrow> Inr s1
              | Some readyQueue \<Rightarrow>
                  if length readyQueue > 0 then
                    bindE (callAll readyQueue c s1) (\<lambda>s2.
                      Component_trigger c ''ready'' True
                        (updComp c (\<lambda>r. r\<lparr>readyQueue' := Some []\<rparr>) s2))
                  else Inr s1))"

subsection \<open>\<^verbatim>\<open>dispose\<close>\<close>

text \<open>
  The loop over the children counts down from the length that \<^verbatim>\<open>children_\<close> had when the
  loop started and reads \<^verbatim>\<open>this.children_[i]\<close> anew in every round.
\<close>

primrec disposeLoop :: "(cid \<Rightarrow> state \<Rightarrow> error + state) \<Rightarrow> cid \<Rightarrow> nat \<Rightarrow> state \<Rightarrow> error + state" where
  "disposeLoop d c 0 s = Inr s"
| "disposeLoop d c (Suc i) s =
     (case children s c of
        None \<Rightarrow> Inl TypeError
      | Some ks \<Rightarrow>
          if i < length ks then bindE (d (ks ! i) s) (disposeLoop d c i) else Inl TypeError)"

text \<open>Modelled from the spec: \<^verbatim>\<open>Dom.removeElData\<close> releases what is kept for the element.\<close>

definition Dom_removeElData :: "eid \<Rightarrow> state \<Rightarrow> state" where
  "Dom_removeElData e s = emit [DataReleased e] (updEl e (\<lambda>x. x\<lparr>handlers := (\<lambda>t. [])\<rparr>) s)"

text \<open>\<^verbatim>\<open>parent.removeChild(e)\<close> of the DOM: the element has no parent afterwards.\<close>

definition Dom_removeChild :: "eid \<Rightarrow> state \<Rightarrow> state" where
  "Dom_removeChild e s = emit [Detached e] (updEl e (\<lambda>x. x\<lparr>parentNode := None\<rparr>) s)"

definition dispose_release :: "cid \<Rightarrow> state \<Rightarrow> error + state" where
  "dispose_release c s =
     (let s1 = emit [ChildrenNulled c]
                 (updComp c (\<lambda>r. r\<lparr>children' := None, childIndex' := None, childNameIndex' := None\<rparr>) s)
      in bindE (Component_off c None None s1) (\<lambda>s2.
           (case el s2 c of
              El e \<Rightarrow>
                (case els s2 e of
                   None \<Rightarrow> Inl TypeError
                 | Some x \<Rightarrow>
                     (let s3 = (case parentNode x of None \<Rightarrow> s2 | Some p \<Rightarrow> Dom_removeChild e s2);
                          s4 = Dom_removeElData e s3
                      in Inr (emit [ElNulled c] (updComp c (\<lambda>r. r\<lparr>el' := Null\<rparr>) s4))))
            | _ \<Rightarrow> Inl TypeError)))"

primrec dispose :: "nat \<Rightarrow> cid \<Rightarrow> state \<Rightarrow> error + state" where
  "dispose 0 c s = Inl OutOfFuel"
| "dispose (Suc n) c s =
     bindE (Component_trigger c ''dispose'' False s) (\<lambda>s1.
       bindE (case children s1 c of
                None \<Rightarrow> Inr s1
              | Some ks \<Rightarrow> disposeLoop (dispose n) c (length ks) s1) (\<lambda>s2.
         dispose_release c s2))"

subsection \<open>Options\<close>

fun truthy :: "jsval \<Rightarrow> bool" where
  "truthy JUndefined = False"
| "truthy JNull = False"
| "truthy (JBool b) = b"
| "truthy (JNum n) = (n \<noteq> 0)"
| "truthy (JStr str) = (str \<noteq> [])"
| "truthy (JElem e) = True"
| "truthy (JObj kvs) = True"
| "truthy (JArr xs) = True"

fun props :: "jsval \<Rightarrow> (string \<times> jsval) list" where
  "props (JObj kvs) = kvs"
| "props v = []"

definition getProp :: "jsval \<Rightarrow> string \<Rightarrow> jsval" where
  "getProp v k = (case map_of (props v) k of None \<Rightarrow> JUndefined | Some x \<Rightarrow> x)"

text \<open>
  Modelled from the spec: \<^verbatim>\<open>mergeOptions\<close> (utils/merge-options.js) is missing. Where
  both sides hold a plain object the two are merged recursively, the override's keys
  taking precedence and the unmatched keys of the base surviving; otherwise the
  override's value replaces the base's value, also when it is \<^verbatim>\<open>null\<close> or \<^verbatim>\<open>false\<close>.
\<close>

fun mergeProps :: "(string \<times> jsval) list \<Rightarrow> (string \<times> jsval) list \<Rightarrow> (string \<times> jsval) list" where
  "mergeProps a [] = a"
| "mergeProps a ((k, v) # bs) =
     mergeProps
       (AList.update k
          (case (map_of a k, v) of
             (Some (JObj x), JObj y) \<Rightarrow> JObj (mergeProps x y)
           | _ \<Rightarrow> v) a) bs"

definition mergeOptions :: "jsval \<Rightarrow> jsval \<Rightarrow> jsval" where
  "mergeOptions a b = JObj (mergeProps (props a) (props b))"

text \<open>Modelled from the spec: \<^verbatim>\<open>toTitleCase\<close> gives the name with its first letter in upper case.\<close>

definition toTitleCase :: "string \<Rightarrow> string" where
  "toTitleCase str =
     (case str of
        [] \<Rightarrow> []
      | ch # rest \<Rightarrow>
          (if (97::nat) \<le> of_char ch \<and> of_char ch \<le> (122::nat)
           then char_of (of_char ch - (32::nat)) else ch) # rest)"

fun show_nat :: "nat \<Rightarrow> string" where
  "show_nat n = (if n < 10 then [char_of (48 + n)] else show_nat (n div 10) @ [char_of (48 + n mod 10)])"

declare show_nat.simps [simp del]

text \<open>
  The options \<^verbatim>\<open>id\<close>, \<^verbatim>\<open>name\<close> and \<^verbatim>\<open>componentClass\<close> are strings when they are
  given; \<open>strOpt\<close> is \<^verbatim>\<open>v || undefined\<close> for such a value.
\<close>

fun strOpt :: "jsval \<Rightarrow> string option" where
  "strOpt (JStr str) = (if str = [] then None else Some str)"
| "strOpt v = None"

subsection \<open>The registry\<close>

definition registerComponent :: "string \<Rightarrow> cls \<Rightarrow> state \<Rightarrow> cls \<times> state" where
  "registerComponent name compType s =
     (compType, s\<lparr>components' :=
        Some ((case components' s of None \<Rightarrow> Map.empty | Some m \<Rightarrow> m)(name \<mapsto> compType))\<rparr>)"

definition deprecation :: "string \<Rightarrow> string" where
  "deprecation name =
     ''The '' @ name @ '' component was added to the videojs object when it should be registered using videojs.registerComponent(name, component)''"

definition getComponent :: "string \<Rightarrow> state \<Rightarrow> cls option \<times> state" where
  "getComponent name s =
     (case (case components' s of None \<Rightarrow> None | Some m \<Rightarrow> m name) of
        Some compType \<Rightarrow> (Some compType, s)
      | None \<Rightarrow>
          (case (case videojs s of None \<Rightarrow> None | Some v \<Rightarrow> v name) of
             Some compType \<Rightarrow> (Some compType, s\<lparr>warnings := warnings s @ [deprecation name]\<rparr>)
           | None \<Rightarrow> (None, s)))"

subsection \<open>Children\<close>

datatype childArg = ByName string | Instance cid

definition contentEl :: "state \<Rightarrow> cid \<Rightarrow> elref" where
  "contentEl s c =
     (case comps s c of
        None \<Rightarrow> Undefined
      | Some r \<Rightarrow> (case contentEl' r of Some e \<Rightarrow> El e | None \<Rightarrow> el' r))"

text \<open>\<^verbatim>\<open>parent.appendChild(e)\<close> of the DOM: the element's parent is the new parent afterwards.\<close>

definition Dom_appendChild :: "eid \<Rightarrow> eid \<Rightarrow> state \<Rightarrow> state" where
  "Dom_appendChild p e s = updEl e (\<lambda>x. x\<lparr>parentNode := Some p\<rparr>) s"

definition getChildById :: "cid \<Rightarrow> string \<Rightarrow> state \<Rightarrow> error + cid option" where
  "getChildById p i s =
     (case comps s p of
        None \<Rightarrow> Inl TypeError
      | Some r \<Rightarrow>
          (case childIndex' r of
             None \<Rightarrow> Inl TypeError
           | Some ix \<Rightarrow> Inr (case ix i of None \<Rightarrow> None | Some v \<Rightarrow> v)))"

definition getChild :: "cid \<Rightarrow> string \<Rightarrow> state \<Rightarrow> error + cid option" where
  "getChild p name s =
     (case comps s p of
        None \<Rightarrow> Inl TypeError
      | Some r \<Rightarrow>
          (case childNameIndex' r of
             None \<Rightarrow> Inl TypeError
           | Some ix \<Rightarrow> Inr (case ix name of None \<Rightarrow> None | Some v \<Rightarrow> v)))"

text \<open>
  The part of \<^verbatim>\<open>addChild\<close> after the component has been made or adopted: it is pushed
  on \<^verbatim>\<open>children_\<close>, entered in both indices and its element is appended to the content
  element.
\<close>

definition adopt :: "cid \<Rightarrow> cid \<Rightarrow> string option \<Rightarrow> state \<Rightarrow> error + (cid \<times> state)" where
  "adopt p component componentName s =
     (case (comps s p, comps s component) of
        (Some r, Some k) \<Rightarrow>
          (case (children' r, childIndex' r, childNameIndex' r) of
             (Some ks, Some ix, Some nix) \<Rightarrow>
               (let name = (case componentName of
                              Some n \<Rightarrow> (if n = [] then name' k else Some n)
                            | None \<Rightarrow> name' k);
                    nix1 = (case name of
                              None \<Rightarrow> nix
                            | Some n \<Rightarrow> (if n = [] then nix else nix(n \<mapsto> Some component)));
                    s1 = updComp p (\<lambda>r. r\<lparr>children' := Some (ks @ [component]),
                                           childIndex' := Some (ix(id' k \<mapsto> Some component)),
                                           childNameIndex' := Some nix1\<rparr>) s
                in case el' k of
                     El e \<Rightarrow>
                       (case contentEl s1 p of
                          El pe \<Rightarrow> Inr (component, Dom_appendChild pe e s1)
                        | _ \<Rightarrow> Inl TypeError)
                   | _ \<Rightarrow> Inr (component, s1))
           | _ \<Rightarrow> Inl TypeError)
      | _ \<Rightarrow> Inl TypeError)"

text \<open>
  The start of \<^verbatim>\<open>addChild\<close> for a name: absent or falsey options become an empty object,
  and so does \<^verbatim>\<open>true\<close>, with a warning.
\<close>

definition deprecatedTrue :: string where
  "deprecatedTrue = ''Initializing a child component with true is deprecated. Children should be defined in an array when possible, but if necessary use an object instead of true.''"

definition booleanOptions :: "jsval \<Rightarrow> state \<Rightarrow> jsval \<times> state" where
  "booleanOptions options s =
     (let options1 = (if options = JUndefined then JObj [] else options);
          options2 = (if \<not> truthy options1 then JObj [] else options1)
      in if options2 = JBool True
         then (JObj [], s\<lparr>warnings := warnings s @ [deprecatedTrue]\<rparr>)
         else (options2, s))"

definition playerOf :: "state \<Rightarrow> cid \<Rightarrow> cid option" where
  "playerOf s c = (case comps s c of None \<Rightarrow> None | Some r \<Rightarrow> player' r)"

definition addChild ::
  "(cls \<Rightarrow> cid option \<Rightarrow> jsval \<Rightarrow> state \<Rightarrow> error + (cid \<times> state)) \<Rightarrow>
   cid \<Rightarrow> childArg \<Rightarrow> jsval \<Rightarrow> state \<Rightarrow> error + (cid \<times> state)" where
  "addChild new p child options s =
     (case child of
        ByName componentName \<Rightarrow>
          (let (options1, s1) = booleanOptions options s;
               componentClassName =
                  (case strOpt (getProp options1 ''componentClass'') of
                     Some n \<Rightarrow> n
                   | None \<Rightarrow> toTitleCase componentName);
               options2 = JObj (AList.update ''name'' (JStr componentName) (props options1));
               (ComponentClass, s2) = getComponent componentClassName s1
           in case ComponentClass of
                None \<Rightarrow> Inl TypeError
              | Some cl \<Rightarrow>
                  bindE (new cl (Some (case playerOf s2 p of Some pl \<Rightarrow> pl | None \<Rightarrow> p)) options2 s2)
                    (\<lambda>(component, s3). adopt p component (Some componentName) s3))
      | Instance component \<Rightarrow> adopt p component None s)"

text \<open>The loop of \<^verbatim>\<open>removeChild\<close>: from the last index down, the first match is spliced out.\<close>

primrec spliceLast :: "cid list \<Rightarrow> cid \<Rightarrow> nat \<Rightarrow> cid list option" where
  "spliceLast ks component 0 = None"
| "spliceLast ks component (Suc i) =
     (if ks ! i = component then Some (take i ks @ drop (Suc i) ks)
      else spliceLast ks component i)"

definition removeChild :: "cid \<Rightarrow> childArg \<Rightarrow> state \<Rightarrow> error + state" where
  "removeChild p child s =
     bindE (case child of
              ByName n \<Rightarrow> getChild p n s
            | Instance k \<Rightarrow> Inr (Some k)) (\<lambda>found.
       (case (found, children s p) of
          (Some component, Some ks) \<Rightarrow>
            (case spliceLast ks component (length ks) of
               None \<Rightarrow> Inr s
             | Some ks' \<Rightarrow>
                 (case (comps s p, comps s component) of
                    (Some r, Some k) \<Rightarrow>
                      (case (childIndex' r, childNameIndex' r) of
                         (Some ix, Some nix) \<Rightarrow>
                           (let s1 = updComp p (\<lambda>r. r\<lparr>children' := Some ks',
                                       childIndex' := Some (ix(id' k \<mapsto> None)),
                                       childNameIndex' := Some (nix((case name' k of
                                           None \<Rightarrow> ''null'' | Some n \<Rightarrow> n) \<mapsto> None))\<rparr>) s
                            in case el s1 component of
                                 El compEl \<Rightarrow>
                                   (case (els s1 compEl, contentEl s1 p) of
                                      (Some x, El pe) \<Rightarrow>
                                        if parentNode x = Some pe
                                        then Inr (Dom_removeChild compEl s1) else Inr s1
                                    | (Some x, _) \<Rightarrow> Inr s1
                                    | (None, _) \<Rightarrow> Inl TypeError)
                               | _ \<Rightarrow> Inr s1)
                       | _ \<Rightarrow> Inl TypeError)
                  | _ \<Rightarrow> Inl TypeError))
        | _ \<Rightarrow> Inr s))"

subsection \<open>The constructor\<close>

fun forEachE :: "('a \<Rightarrow> state \<Rightarrow> error + state) \<Rightarrow> 'a list \<Rightarrow> state \<Rightarrow> error + state" where
  "forEachE f [] s = Inr s"
| "forEachE f (x # xs) s = bindE (f x s) (forEachE f xs)"

definition handleAdd ::
  "(cls \<Rightarrow> cid option \<Rightarrow> jsval \<Rightarrow> state \<Rightarrow> error + (cid \<times> state)) \<Rightarrow>
   cid \<Rightarrow> jsval \<Rightarrow> string \<Rightarrow> jsval \<Rightarrow> state \<Rightarrow> error + state" where
  "handleAdd new p parentOptions name opts s =
     (let opts1 = (if getProp parentOptions name \<noteq> JUndefined then getProp parentOptions name else opts)
      in if opts1 = JBool False then Inr s
         else bindE (addChild new p (ByName name) opts1 s) (\<lambda>(k, s1).
                Inr (updComp p (\<lambda>r. r\<lparr>named := (named r)(name \<mapsto> k)\<rparr>) s1)))"

text \<open>
  An entry of an array of children is a name, or an object whose \<^verbatim>\<open>name\<close> is a string;
  anything else has no usable \<^verbatim>\<open>name\<close> and fails in \<^verbatim>\<open>addChild\<close>.
\<close>

definition initChildren ::
  "(cls \<Rightarrow> cid option \<Rightarrow> jsval \<Rightarrow> state \<Rightarrow> error + (cid \<times> state)) \<Rightarrow>
   cid \<Rightarrow> state \<Rightarrow> error + state" where
  "initChildren new p s =
     (case comps s p of
        None \<Rightarrow> Inl TypeError
      | Some r \<Rightarrow>
          (let children = getProp (options' r) ''children''
           in if truthy children then
                (let parentOptions = options' r
                 in case children of
                      JArr xs \<Rightarrow>
                        forEachE (\<lambda>child s.
                          (case child of
                             JStr n \<Rightarrow> handleAdd new p parentOptions n (JObj []) s
                           | JObj kvs \<Rightarrow>
                               (case getProp child ''name'' of
                                  JStr n \<Rightarrow> handleAdd new p parentOptions n child s
                                | _ \<Rightarrow> Inl TypeError)
                           | _ \<Rightarrow> Inl TypeError)) xs s
                    | _ \<Rightarrow>
                        forEachE (\<lambda>name s. handleAdd new p parentOptions name (getProp children name) s)
                          (map fst (props children)) s)
              else Inr s))"

text \<open>Modelled from the spec: \<^verbatim>\<open>Dom.createEl\<close> makes a fresh element without a parent.\<close>

definition Dom_createEl :: "state \<Rightarrow> eid \<times> state" where
  "Dom_createEl s =
     (nextEid s,
      s\<lparr>els := (els s)(nextEid s \<mapsto> \<lparr>parentNode = None, elemId = [], handlers = (\<lambda>t. [])\<rparr>),
        nextEid := Suc (nextEid s)\<rparr>)"

text \<open>
  \<^verbatim>\<open>new ComponentClass(player, options, ready)\<close>, in two parts. \<open>construct_fields\<close>
  is the constructor up to the child containers: it merges the options, settles the id
  (\<open>construct_id\<close>), the name and the element (\<open>construct_el\<close>), and enters the new
  object in the store under a fresh reference. \<open>construct\<close> then makes the children and registers the ready callback. The
  guard of \<^verbatim>\<open>enableTouchActivity\<close> returns at once, since no owner has
  \<^verbatim>\<open>reportUserActivity\<close>.
\<close>

definition mergedOptions :: "cls \<Rightarrow> jsval \<Rightarrow> jsval" where
  "mergedOptions cl options =
     (let options0 = mergeOptions (JObj []) (protoOptions cl)
      in if truthy options then mergeOptions options0 options else options0)"

definition construct_id :: "cid option \<Rightarrow> jsval \<Rightarrow> state \<Rightarrow> string \<times> state" where
  "construct_id player options s =
     (case (case strOpt (getProp options ''id'') of
              Some i \<Rightarrow> Some i
            | None \<Rightarrow>
                (case getProp options ''el'' of
                   JElem e \<Rightarrow>
                     (case els s e of
                        None \<Rightarrow> None
                      | Some x \<Rightarrow> (if elemId x = [] then None else Some (elemId x)))
                 | _ \<Rightarrow> None)) of
        Some i \<Rightarrow> (i, s)
      | None \<Rightarrow>
          (let id = (case player of
                       None \<Rightarrow> ''no_player''
                     | Some pl \<Rightarrow>
                         (case comps s pl of
                            None \<Rightarrow> ''no_player''
                          | Some r \<Rightarrow> (if id' r = [] then ''no_player'' else id' r)));
               (g, s') = newGUID s
           in (id @ ''_component_'' @ show_nat g, s')))"

definition construct_el :: "jsval \<Rightarrow> state \<Rightarrow> elref \<times> state" where
  "construct_el options s =
     (case getProp options ''el'' of
        JElem e \<Rightarrow> (El e, s)
      | _ \<Rightarrow>
          (if getProp options ''createEl'' \<noteq> JBool False
           then (let (e, s') = Dom_createEl s in (El e, s'))
           else (Undefined, s)))"

definition construct_fields :: "cls \<Rightarrow> cid option \<Rightarrow> jsval \<Rightarrow> state \<Rightarrow> jsval \<times> state" where
  "construct_fields cl player options s =
     (let this = nextCid s;
          options1 = mergedOptions cl options;
          (theId, s1) = construct_id player options1 s;
          (theEl, s2) = construct_el options1 s1
      in (options1,
          s2\<lparr>comps := (comps s2)(this \<mapsto>
                 \<lparr>player' = player, options' = options1, id' = theId,
                  name' = strOpt (getProp options1 ''name''), el' = theEl, contentEl' = None,
                  children' = Some [], childIndex' = Some Map.empty,
                  childNameIndex' = Some Map.empty, readyQueue' = None, isReady' = False,
                  named = Map.empty\<rparr>),
             nextCid := Suc this\<rparr>))"

primrec construct ::
  "nat \<Rightarrow> cls \<Rightarrow> cid option \<Rightarrow> jsval \<Rightarrow> fnref option \<Rightarrow> state \<Rightarrow> error + (cid \<times> state)" where
  "construct 0 cl player options ready s = Inl OutOfFuel"
| "construct (Suc n) cl player options ready s =
     (let this = nextCid s;
          (options1, s3) = construct_fields cl player options s
      in bindE (if getProp options1 ''initChildren'' \<noteq> JBool False
                then initChildren (\<lambda>cl pl opts. construct n cl pl opts None) this s3
                else Inr s3) (\<lambda>s4.
           bindE (Component_ready this ready s4) (\<lambda>s5. Inr (this, s5))))"

subsection \<open>Vocabulary of the statements\<close>

text \<open>
  The state in which the module has been loaded: nothing exists yet, and the last line of
  \<^verbatim>\<open>component.js\<close> has registered the base class under its name.
\<close>

definition Component :: cls where
  "Component = \<lparr>clsName = ''Component'', protoOptions = JUndefined\<rparr>"

definition initial :: state where
  "initial = \<lparr>comps = Map.empty, els = Map.empty, nextCid = 0, nextEid = 0, fguid = Map.empty,
     guidCount = 1, timers = Map.empty, nextTimer = 1,
     components' = Some [''Component'' \<mapsto> Component], videojs = None, warnings = [], trace = []\<rparr>"

text \<open>Two states with the same components and the same registry.\<close>

definition sameObjects :: "state \<Rightarrow> state \<Rightarrow> bool" where
  "sameObjects s s' =
     (comps s' = comps s \<and> nextCid s' = nextCid s \<and> nextEid s' = nextEid s \<and>
      components' s' = components' s \<and> videojs s' = videojs s)"

definition registered :: "state \<Rightarrow> string \<Rightarrow> cls option" where
  "registered s name = (case components' s of None \<Rightarrow> None | Some m \<Rightarrow> m name)"


definition queue :: "state \<Rightarrow> cid \<Rightarrow> fnref list" where
  "queue s c =
     (case comps s c of
        None \<Rightarrow> []
      | Some r \<Rightarrow> (case readyQueue' r of None \<Rightarrow> [] | Some q \<Rightarrow> q))"

definition isReady :: "state \<Rightarrow> cid \<Rightarrow> bool" where
  "isReady s c = (case comps s c of None \<Rightarrow> False | Some r \<Rightarrow> isReady' r)"

definition listeners :: "state \<Rightarrow> eid \<Rightarrow> string \<Rightarrow> (guid \<times> fnref) list" where
  "listeners s e ty = (case els s e of None \<Rightarrow> [] | Some x \<Rightarrow> handlers x ty)"

text \<open>
  A plain listener is a caller's function bound to a component, which is what
  \<^verbatim>\<open>on(type, fn)\<close> registers. \<open>calls hs\<close> is what running plain listeners leaves in the
  trace.
\<close>

definition plain :: "guid \<times> fnref \<Rightarrow> bool" where
  "plain h = (case snd h of Bound c (User k) g \<Rightarrow> True | _ \<Rightarrow> False)"

definition calls :: "(guid \<times> fnref) list \<Rightarrow> step list" where
  "calls hs =
     concat (map (\<lambda>h. case snd h of Bound c (User k) g \<Rightarrow> [Called k (Some c)] | _ \<Rightarrow> []) hs)"

text \<open>Small states for the examples: a component without children and an element without listeners.\<close>

definition leaf :: "string \<Rightarrow> eid \<Rightarrow> component" where
  "leaf i e = \<lparr>player' = None, options' = JObj [], id' = i, name' = None, el' = El e,
     contentEl' = None, children' = Some [], childIndex' = Some Map.empty,
     childNameIndex' = Some Map.empty, readyQueue' = None, isReady' = False, named = Map.empty\<rparr>"

definition blank :: element where
  "blank = \<lparr>parentNode = None, elemId = [], handlers = (\<lambda>t. [])\<rparr>"

definition readyDemo :: state where
  "readyDemo = initial\<lparr>
     comps := [0 \<mapsto> (leaf ''a'' 0)\<lparr>readyQueue' := Some [User 1, User 2]\<rparr>],
     els := [0 \<mapsto> blank\<lparr>handlers := (\<lambda>t. [])(''ready'' := [(GNum 5, Bound 0 (User 3) (GNum 5))])\<rparr>]\<rparr>"

definition parentOf :: "state \<Rightarrow> eid \<Rightarrow> eid option" where
  "parentOf s e = (case els s e of None \<Rightarrow> None | Some x \<Rightarrow> parentNode x)"

definition nameKey :: "component \<Rightarrow> string" where
  "nameKey r = (case name' r of None \<Rightarrow> ''null'' | Some n \<Rightarrow> n)"

definition elementPresent :: "state \<Rightarrow> cid \<Rightarrow> bool" where
  "elementPresent s c = (case el s c of El e \<Rightarrow> els s e \<noteq> None | _ \<Rightarrow> True)"

definition insideContentEl :: "state \<Rightarrow> cid \<Rightarrow> eid \<Rightarrow> bool" where
  "insideContentEl s p e = (case parentOf s e of None \<Rightarrow> False | Some pe \<Rightarrow> contentEl s p = El pe)"

definition removeDemo :: state where
  "removeDemo = initial\<lparr>
     comps := [0 \<mapsto> (leaf ''p'' 0)\<lparr>children' := Some [1, 2, 1],
                    childIndex' := Some [''a'' \<mapsto> Some 1, ''b'' \<mapsto> Some 2],
                    childNameIndex' := Some [''x'' \<mapsto> Some 1]\<rparr>,
               1 \<mapsto> (leaf ''a'' 1)\<lparr>name' := Some ''x''\<rparr>,
               2 \<mapsto> leaf ''b'' 2,
               3 \<mapsto> (leaf ''d'' 3)\<lparr>children' := None\<rparr>],
     els := [0 \<mapsto> blank, 1 \<mapsto> blank\<lparr>parentNode := Some 0\<rparr>,
             2 \<mapsto> blank\<lparr>parentNode := Some 0\<rparr>, 3 \<mapsto> blank]\<rparr>"

definition elmono :: "state \<Rightarrow> state \<Rightarrow> bool" where
  "elmono s s' = (\<forall>k e. el s' k = El e \<longrightarrow> el s k = El e)"

definition isOK :: "error + 'a \<Rightarrow> bool" where
  "isOK m = (case m of Inl e \<Rightarrow> False | Inr x \<Rightarrow> True)"

definition familyDemo :: state where
  "familyDemo = initial\<lparr>
     comps := [0 \<mapsto> (leaf ''p'' 0)\<lparr>children' := Some [1, 2]\<rparr>,
               1 \<mapsto> leaf ''a'' 1,
               2 \<mapsto> leaf ''b'' 2],
     els := [0 \<mapsto> blank\<lparr>handlers := (\<lambda>t. [])(''click'' := [(GNum 5, Bound 0 (User 3) (GNum 5))],
                                               ''dispose'' := [(GNum 6, Bound 0 (User 4) (GNum 6))])\<rparr>,
             1 \<mapsto> blank\<lparr>parentNode := Some 0\<rparr>,
             2 \<mapsto> blank\<lparr>parentNode := Some 0\<rparr>]\<rparr>"

text \<open>Constructors leave the components that exist alone.\<close>

definition framed :: "(cls \<Rightarrow> cid option \<Rightarrow> jsval \<Rightarrow> state \<Rightarrow> error + (cid \<times> state)) \<Rightarrow> bool" where
  "framed new = (\<forall>cl pl opts s k s'. new cl pl opts s = Inr (k, s') \<longrightarrow>
     nextCid s \<le> nextCid s' \<and> (\<forall>c<nextCid s. comps s' c = comps s c))"

definition keeps :: "cid \<Rightarrow> state \<Rightarrow> state \<Rightarrow> bool" where
  "keeps p s s' = (nextCid s \<le> nextCid s' \<and> el s' p = el s p \<and>
     (\<forall>c<nextCid s. c \<noteq> p \<longrightarrow> comps s' c = comps s c))"








text \<open>
  A component tree: a component, its element, and the trees of its children in the order
  of \<^verbatim>\<open>children_\<close>.
\<close>

datatype ctree = CNode cid eid "ctree list"

fun root :: "ctree \<Rightarrow> cid" where
  "root (CNode c e ks) = c"

fun nodes :: "ctree \<Rightarrow> cid list" where
  "nodes (CNode c e ks) = c # concat (map nodes ks)"

fun elems :: "ctree \<Rightarrow> eid list" where
  "elems (CNode c e ks) = e # concat (map elems ks)"


text \<open>
  The state holds the tree \<open>t\<close>, and the listeners for \<^verbatim>\<open>dispose\<close> on its elements are
  plain.
\<close>

fun quiet :: "state \<Rightarrow> ctree \<Rightarrow> bool" where
  "quiet s (CNode c e ks) =
     (el s c = El e \<and> children s c = Some (map root ks) \<and> els s e \<noteq> None \<and>
      list_all plain (listeners s e ''dispose'') \<and> list_all (quiet s) ks)"

text \<open>
  The order of a teardown in the words of the specification: the \<^verbatim>\<open>dispose\<close> event on
  the component's own element first (its listeners run), then every child in reverse
  order, recursively, then the child list and the indices are nulled, the listeners of
  the element removed, the element detached if it has a parent, its bookkeeping released,
  and the element reference nulled.
\<close>

fun disposeOrder :: "state \<Rightarrow> ctree \<Rightarrow> step list" where
  "disposeOrder s (CNode c e ks) =
     Dispatched e ''dispose'' False # calls (listeners s e ''dispose'') @
     concat (map (disposeOrder s) (rev ks)) @
     [ChildrenNulled c, ListenersCleared e] @
     (if parentOf s e = None then [] else [Detached e]) @
     [DataReleased e, ElNulled c]"

text \<open>The state after the last part of \<^verbatim>\<open>dispose\<close>, for a component \<open>c\<close> with the element \<open>e\<close>.\<close>

definition released :: "cid \<Rightarrow> eid \<Rightarrow> state \<Rightarrow> state" where
  "released c e s =
     emit [ElNulled c] (updComp c (\<lambda>r. r\<lparr>el' := Null\<rparr>)
       (Dom_removeElData e
         ((if parentOf s e = None then id else Dom_removeChild e)
           (emit [ListenersCleared e] (updEl e (\<lambda>x. x\<lparr>handlers := (\<lambda>t. [])\<rparr>)
             (emit [ChildrenNulled c]
               (updComp c (\<lambda>r. r\<lparr>children' := None, childIndex' := None,
                                     childNameIndex' := None\<rparr>) s)))))))"

text \<open>Everything in a state but the components, the elements and the trace.\<close>

definition others :: "state \<Rightarrow> state" where
  "others s = s\<lparr>comps := Map.empty, els := Map.empty, trace := []\<rparr>"

definition fnodes :: "ctree list \<Rightarrow> cid list" where
  "fnodes ts = concat (map nodes ts)"

definition felems :: "ctree list \<Rightarrow> eid list" where
  "felems ts = concat (map elems ts)"



text \<open>What registering and removing listeners does to the state.\<close>

definition addListener :: "eid \<Rightarrow> string \<Rightarrow> guid \<times> fnref \<Rightarrow> state \<Rightarrow> state" where
  "addListener e ty h s =
     updEl e (\<lambda>x. x\<lparr>handlers := (handlers x)(ty := handlers x ty @ [h])\<rparr>) s"

definition dropGuid :: "eid \<Rightarrow> string \<Rightarrow> guid \<Rightarrow> state \<Rightarrow> state" where
  "dropGuid e ty g s =
     updEl e (\<lambda>x. x\<lparr>handlers := (handlers x)(ty := filter (\<lambda>h. fst h \<noteq> g) (handlers x ty))\<rparr>) s"




text \<open>No timer is scheduled from \<open>s\<close> to \<open>s'\<close>.\<close>

definition noNewTimer :: "state \<Rightarrow> state \<Rightarrow> bool" where
  "noNewTimer s s' = (\<forall>i. timers s i = None \<longrightarrow> timers s' i = None)"

text \<open>The state in which the platform has scheduled a timer.\<close>

definition scheduled :: "timer_kind \<Rightarrow> fnref \<Rightarrow> state \<Rightarrow> state" where
  "scheduled k f s = snd (window_setTimer k f s)"

definition timerGuid :: "timer_kind \<Rightarrow> nat \<Rightarrow> guid" where
  "timerGuid k n = (case k of Timeout \<Rightarrow> GTimeout n | Interval \<Rightarrow> GInterval n)"






section \<open>Properties\<close>

subsection \<open>The error monad and the parts of the state\<close>

lemma bindE_Inr [simp]: "bindE (Inr x) f = f x"
  by (simp add: bindE_def)

lemma bindE_Inl [simp]: "bindE (Inl e) f = Inl e"
  by (simp add: bindE_def)

lemma bindE_eq_Inr: "bindE m f = Inr y \<longleftrightarrow> (\<exists>x. m = Inr x \<and> f x = Inr y)"
  by (cases m) simp_all

lemma comps_updEl [simp]: "comps (updEl e f s) = comps s"
  by (simp add: updEl_def)

lemma comps_emit [simp]: "comps (emit xs s) = comps s"
  by (simp add: emit_def)

lemma els_emit [simp]: "els (emit xs s) = els s"
  by (simp add: emit_def)

lemma trace_emit [simp]: "trace (emit xs s) = trace s @ xs"
  by (simp add: emit_def)

lemma trace_updEl [simp]: "trace (updEl e f s) = trace s"
  by (simp add: updEl_def)

lemma trace_updComp [simp]: "trace (updComp c f s) = trace s"
  by (simp add: updComp_def)

lemma els_updComp [simp]: "els (updComp c f s) = els s"
  by (simp add: updComp_def)

lemma els_updEl [simp]: "els (updEl e f s) = (els s)(e := map_option f (els s e))"
  by (simp add: updEl_def)

lemma comps_updComp [simp]: "comps (updComp c f s) = (comps s)(c := map_option f (comps s c))"
  by (simp add: updComp_def)

lemma el_updEl [simp]: "el (updEl e f s) = el s"
  by (rule ext) (simp add: el_def)

lemma el_emit [simp]: "el (emit xs s) = el s"
  by (rule ext) (simp add: el_def)

lemma children_updEl [simp]: "children (updEl e f s) = children s"
  by (rule ext) (simp add: children_def)

lemma children_emit [simp]: "children (emit xs s) = children s"
  by (rule ext) (simp add: children_def)

text \<open>
  Listening, dispatching and timers change listeners, guids, timers and the trace; they
  create no object and change no component.
\<close>

lemma sameObjects_refl [simp]: "sameObjects s s"
  by (simp add: sameObjects_def)

lemma sameObjects_trans: "sameObjects s s1 \<Longrightarrow> sameObjects s1 s2 \<Longrightarrow> sameObjects s s2"
  by (simp add: sameObjects_def)

lemma sameObjects_comps: "sameObjects s s' \<Longrightarrow> comps s' = comps s"
  by (simp add: sameObjects_def)

lemma sameObjects_updEl [simp]: "sameObjects s (updEl e f s') = sameObjects s s'"
  by (simp add: sameObjects_def updEl_def)

lemma sameObjects_emit [simp]: "sameObjects s (emit xs s') = sameObjects s s'"
  by (simp add: sameObjects_def emit_def)

lemma sameObjects_window_clearTimer [simp]:
  "sameObjects s (window_clearTimer n s') = sameObjects s s'"
  by (simp add: sameObjects_def window_clearTimer_def)

lemma sameObjects_updEl_iff [simp]: "sameObjects (updEl e f s) s' = sameObjects s s'"
  by (simp add: sameObjects_def updEl_def)

lemma sameObjects_emit_iff [simp]: "sameObjects (emit xs s) s' = sameObjects s s'"
  by (simp add: sameObjects_def emit_def)

lemma sameObjects_window_clearTimer_iff [simp]:
  "sameObjects (window_clearTimer n s) s' = sameObjects s s'"
  by (simp add: sameObjects_def window_clearTimer_def)

lemma el_sameObjects: "sameObjects s s' \<Longrightarrow> el s' = el s"
  by (rule ext) (simp add: sameObjects_def el_def)

lemma ensure_guid_same: "ensure_guid f s = (g, s') \<Longrightarrow> sameObjects s s'"
  by (auto simp: sameObjects_def ensure_guid_def split: option.splits fnref.splits)

lemma Fn_bind_same: "Fn_bind c f s = (fn, s') \<Longrightarrow> sameObjects s s'"
  by (auto simp: Fn_bind_def split: prod.splits dest: ensure_guid_same)

lemma Events_on_same: "Events_on r ty f s = Inr s' \<Longrightarrow> sameObjects s s'"
proof -
  assume a: "Events_on r ty f s = Inr s'"
  obtain g s1 where g: "ensure_guid f s = (g, s1)" by (cases "ensure_guid f s")
  from a g have "sameObjects s1 s'"
    by (auto simp: Events_on_def split: elref.splits option.splits)
  with ensure_guid_same [OF g] show ?thesis by (rule sameObjects_trans)
qed

lemma Events_off_same: "Events_off r ty fn s = Inr s' \<Longrightarrow> sameObjects s s'"
  by (auto simp: Events_off_def split: elref.splits option.splits)

lemma Component_off_same: "Component_off c ty fn s = Inr s' \<Longrightarrow> sameObjects s s'"
  by (simp add: Component_off_def Events_off_same)

lemma Component_on_same: "Component_on c ty f s = Inr s' \<Longrightarrow> sameObjects s s'"
proof -
  assume a: "Component_on c ty f s = Inr s'"
  obtain fn s1 where b: "Fn_bind c f s = (fn, s1)" by (cases "Fn_bind c f s")
  with a have "Events_on (el s1 c) ty fn s1 = Inr s'" by (simp add: Component_on_def)
  then have "sameObjects s1 s'" by (rule Events_on_same)
  with Fn_bind_same [OF b] show ?thesis by (rule sameObjects_trans)
qed

lemma Component_on_target_same:
  "Component_on_target c tgt ty f s = Inr s' \<Longrightarrow> sameObjects s s'"
proof -
  assume a: "Component_on_target c tgt ty f s = Inr s'"
  obtain fn s1 where b: "Fn_bind c f s = (fn, s1)" by (cases "Fn_bind c f s")
  from a b obtain s2 s3 where
    "sameObjects s1 s2" "sameObjects s2 s3" "sameObjects s3 s'"
    by (cases tgt)
       (auto simp: Component_on_target_def Let_def bindE_eq_Inr
             dest!: Component_on_same Events_on_same)
  with Fn_bind_same [OF b] show ?thesis by (blast intro: sameObjects_trans)
qed

lemma Component_off_target_same:
  "Component_off_target c tgt ty f s = Inr s' \<Longrightarrow> sameObjects s s'"
proof -
  assume a: "Component_off_target c tgt ty f s = Inr s'"
  obtain fn s1 where b: "Fn_bind c f s = (fn, s1)" by (cases "Fn_bind c f s")
  from a b obtain s2 s3 where
    "sameObjects s1 s2" "sameObjects s2 s3" "sameObjects s3 s'"
    by (cases tgt)
       (auto simp: Component_off_target_def bindE_eq_Inr
             dest!: Component_off_same Events_off_same)
  with Fn_bind_same [OF b] show ?thesis by (blast intro: sameObjects_trans)
qed

lemma Component_clearTimeout_same:
  "Component_clearTimeout c n s = Inr (m, s') \<Longrightarrow> sameObjects s s'"
  by (auto simp: Component_clearTimeout_def bindE_eq_Inr dest!: Component_off_same)

lemma Component_clearInterval_same:
  "Component_clearInterval c n s = Inr (m, s') \<Longrightarrow> sameObjects s s'"
  by (auto simp: Component_clearInterval_def bindE_eq_Inr dest!: Component_off_same)

lemma call_same: "call f this s = Inr s' \<Longrightarrow> sameObjects s s'"
proof (induction f this s rule: call.induct)
  case (5 k n this s)
  then show ?case
    by (cases this; cases k)
       (auto simp: map_sum_def split: sum.splits
             dest: Component_clearTimeout_same Component_clearInterval_same)
qed (auto dest: Component_off_target_same Component_off_same)

lemma runHandlers_same: "runHandlers hs s = Inr s' \<Longrightarrow> sameObjects s s'"
proof (induction hs arbitrary: s)
  case Nil
  then show ?case by simp
next
  case (Cons h hs)
  then obtain s1 where "call (snd h) None s = Inr s1" "runHandlers hs s1 = Inr s'"
    by (auto simp: bindE_eq_Inr)
  with Cons.IH show ?case by (blast intro: sameObjects_trans call_same)
qed

lemma callAll_same: "callAll fs c s = Inr s' \<Longrightarrow> sameObjects s s'"
proof (induction fs arbitrary: s)
  case Nil
  then show ?case by simp
next
  case (Cons f fs)
  then obtain s1 where "call f (Some c) s = Inr s1" "callAll fs c s1 = Inr s'"
    by (auto simp: bindE_eq_Inr)
  with Cons.IH show ?case by (blast intro: sameObjects_trans call_same)
qed

lemma Events_trigger_same: "Events_trigger r ty b s = Inr s' \<Longrightarrow> sameObjects s s'"
  by (auto simp: Events_trigger_def split: elref.splits option.splits dest!: runHandlers_same)

lemma Component_trigger_same: "Component_trigger c ty b s = Inr s' \<Longrightarrow> sameObjects s s'"
  by (simp add: Component_trigger_def Events_trigger_same)

lemma callAll_comps: "callAll fs c s = Inr s' \<Longrightarrow> comps s' = comps s"
  by (simp add: callAll_same sameObjects_comps)

lemma Component_trigger_comps: "Component_trigger c ty b s = Inr s' \<Longrightarrow> comps s' = comps s"
  by (simp add: Component_trigger_same sameObjects_comps)

subsection \<open>Running plain listeners; the ready queue\<close>

lemma emit_Nil [simp]: "emit [] s = s"
  by (simp add: emit_def)

lemma emit_emit [simp]: "emit ys (emit xs s) = emit (xs @ ys) s"
  by (simp add: emit_def)

lemma plainE: "plain h \<Longrightarrow> \<exists>c k g. snd h = Bound c (User k) g"
  by (auto simp: plain_def split: fnref.splits)

lemma calls_Nil [simp]: "calls [] = []"
  by (simp add: calls_def)

lemma calls_Cons_plain [simp]: "calls ((g', Bound c (User k) g) # hs) = Called k (Some c) # calls hs"
  by (simp add: calls_def)

lemma runHandlers_plain: "\<forall>h\<in>set hs. plain h \<Longrightarrow> runHandlers hs s = Inr (emit (calls hs) s)"
proof (induction hs arbitrary: s)
  case Nil
  then show ?case by simp
next
  case (Cons h hs)
  from Cons.prems obtain c k g where h: "snd h = Bound c (User k) g"
    using plainE by (metis list.set_intros(1))
  then have h': "h = (fst h, Bound c (User k) g)" by (metis prod.collapse)
  have "runHandlers (h # hs) s = runHandlers hs (emit [Called k (Some c)] s)"
    by (simp add: h)
  also have "\<dots> = Inr (emit (calls hs) (emit [Called k (Some c)] s))"
    using Cons by simp
  also have "\<dots> = Inr (emit (calls (h # hs)) s)"
    by (simp add: calls_def h)
  finally show ?case .
qed

lemma callAll_User: "callAll (map User ks) c s = Inr (emit (map (\<lambda>k. Called k (Some c)) ks) s)"
  by (induction ks arbitrary: s) simp_all

lemma ready_queues:
  assumes "comps s c = Some r" "\<not> isReady' r"
  shows "Component_ready c (Some f) s =
           Inr (updComp c (\<lambda>r. r\<lparr>readyQueue' := Some (queue s c @ [f])\<rparr>) s)"
  using assms by (simp add: Component_ready_def queue_def updComp_def)

lemma triggerReady_unfold:
  assumes "comps s c = Some r"
  shows "Component_triggerReady c s =
           (case readyQueue' r of
              None \<Rightarrow> Inr (updComp c (\<lambda>r. r\<lparr>isReady' := True\<rparr>) s)
            | Some q \<Rightarrow>
                if q \<noteq> [] then
                  bindE (callAll q c (updComp c (\<lambda>r. r\<lparr>isReady' := True\<rparr>) s)) (\<lambda>s2.
                    Component_trigger c ''ready'' True
                      (updComp c (\<lambda>r. r\<lparr>readyQueue' := Some []\<rparr>) s2))
                else Inr (updComp c (\<lambda>r. r\<lparr>isReady' := True\<rparr>) s))"
  using assms by (simp add: Component_triggerReady_def Let_def split: option.splits)

lemma triggerReady_isReady:
  assumes "Component_triggerReady c s = Inr s1"
  shows "isReady s1 c"
proof -
  let ?s1 = "updComp c (\<lambda>r. r\<lparr>isReady' := True\<rparr>) s"
  from assms obtain r where r: "comps s c = Some r"
    by (cases "comps s c") (auto simp: Component_triggerReady_def Let_def)
  have rdy: "isReady ?s1 c" using r by (simp add: isReady_def)
  note u = triggerReady_unfold [OF r]
  show ?thesis
  proof (cases "readyQueue' r")
    case None
    with assms u have "s1 = ?s1" by simp
    with rdy show ?thesis by simp
  next
    case (Some q)
    show ?thesis
    proof (cases "q = []")
      case True
      with assms u Some have "s1 = ?s1" by simp
      with rdy show ?thesis by simp
    next
      case False
      with assms u Some obtain s2 where
        a: "callAll q c ?s1 = Inr s2" and
        b: "Component_trigger c ''ready'' True (updComp c (\<lambda>r. r\<lparr>readyQueue' := Some []\<rparr>) s2) = Inr s1"
        by (auto simp: bindE_eq_Inr)
      from a have "comps s2 = comps ?s1" by (rule callAll_comps)
      moreover from b have "comps s1 = comps (updComp c (\<lambda>r. r\<lparr>readyQueue' := Some []\<rparr>) s2)"
        by (rule Component_trigger_comps)
      ultimately show ?thesis using r by (simp add: isReady_def)
    qed
  qed
qed

lemma ready_immediate:
  assumes "isReady s c"
  shows "Component_ready c (Some f) s = call f (Some c) s"
  using assms by (auto simp: Component_ready_def isReady_def split: option.splits)

lemma triggerReady_drains:
  assumes r: "comps s c = Some r"
    and q: "queue s c = map User ks"
    and e: "el' r = El e" "els s e = Some x"
    and p: "\<forall>h\<in>set (handlers x ''ready''). plain h"
  shows "\<exists>s1. Component_triggerReady c s = Inr s1 \<and>
           trace s1 = trace s @ map (\<lambda>k. Called k (Some c)) ks @
             (if ks = [] then [] else Dispatched e ''ready'' True # calls (handlers x ''ready'')) \<and>
           (ks \<noteq> [] \<longrightarrow> queue s1 c = []) \<and> queue s1 c = [] \<and> isReady s1 c"
proof (cases "ks = []")
  case True
  with r q show ?thesis
    by (auto simp: Component_triggerReady_def Let_def queue_def isReady_def split: option.splits)
next
  case False
  with r q have qq: "readyQueue' r = Some (map User ks)"
    by (auto simp: queue_def split: option.splits)
  show ?thesis
    using r qq False e p
    by (simp add: Component_triggerReady_def Let_def callAll_User Component_trigger_def
        Events_trigger_def el_def runHandlers_plain queue_def isReady_def)
qed

subsection \<open>Looking up a component type\<close>



subsection \<open>Ready callbacks\<close>

lemma triggerReady_empty:
  assumes "comps s c = Some r" "queue s c = []"
  shows "\<exists>s1. Component_triggerReady c s = Inr s1 \<and> trace s1 = trace s"
  using assms
  by (auto simp: triggerReady_unfold [OF assms(1)] queue_def split: option.splits)

text \<open>
  C4. For a component \<open>c\<close>:
  \<^item> while \<open>c\<close> is not ready, \<^verbatim>\<open>ready(fn)\<close> appends \<open>fn\<close> to the queue and calls nothing;
  \<^item> after a \<^verbatim>\<open>triggerReady()\<close> that returned, \<open>c\<close> is ready and \<^verbatim>\<open>ready(fn)\<close> calls
    \<open>fn\<close> at once, with \<open>c\<close> as the receiver;
  \<^item> \<^verbatim>\<open>triggerReady()\<close> calls the queued callbacks in the order of their registration,
    then, if and only if the queue was not empty, dispatches one \<^verbatim>\<open>ready\<close> event on the
    component's element (whose listeners run after it), and leaves the queue empty; a
    second \<^verbatim>\<open>triggerReady()\<close> calls and dispatches nothing.
  The queued callbacks are functions of the caller and the listeners for \<^verbatim>\<open>ready\<close> are
  plain.
\<close>

theorem ready_semantics:
  assumes "comps s c = Some r"
  shows
    "(\<not> isReady s c \<longrightarrow>
        (\<exists>s1. Component_ready c (Some fn) s = Inr s1 \<and> queue s1 c = queue s c @ [fn] \<and>
              trace s1 = trace s)) \<and>
     (\<forall>s1. Component_triggerReady c s = Inr s1 \<longrightarrow>
        isReady s1 c \<and> Component_ready c (Some fn) s1 = call fn (Some c) s1 \<and>
        Component_ready c (Some (User k)) s1 = Inr (emit [Called k (Some c)] s1)) \<and>
     (queue s c = map User ks \<and> el s c = El e \<and> els s e = Some x \<and>
      (\<forall>h\<in>set (handlers x ''ready''). plain h) \<longrightarrow>
        (\<exists>s1. Component_triggerReady c s = Inr s1 \<and>
              trace s1 = trace s @ map (\<lambda>k. Called k (Some c)) ks @
                (if ks = [] then [] else Dispatched e ''ready'' True # calls (handlers x ''ready'')) \<and>
              queue s1 c = [] \<and>
              (\<exists>s2. Component_triggerReady c s1 = Inr s2 \<and> trace s2 = trace s1)))"
proof (intro conjI impI allI)
  assume "\<not> isReady s c"
  with assms have "\<not> isReady' r" by (simp add: isReady_def)
  from ready_queues [OF assms this, of fn] assms
  show "\<exists>s1. Component_ready c (Some fn) s = Inr s1 \<and> queue s1 c = queue s c @ [fn] \<and>
          trace s1 = trace s"
    by (simp add: queue_def)
next
  fix s1 assume t: "Component_triggerReady c s = Inr s1"
  then show "isReady s1 c" by (rule triggerReady_isReady)
  then show "Component_ready c (Some fn) s1 = call fn (Some c) s1"
    by (rule ready_immediate)
  from \<open>isReady s1 c\<close> show "Component_ready c (Some (User k)) s1 = Inr (emit [Called k (Some c)] s1)"
    by (simp add: ready_immediate)
next
  assume h: "queue s c = map User ks \<and> el s c = El e \<and> els s e = Some x \<and>
      (\<forall>h\<in>set (handlers x ''ready''). plain h)"
  with assms have e: "el' r = El e" by (simp add: el_def)
  from triggerReady_drains [OF assms _ e, of ks x] h obtain s1 where
    s1: "Component_triggerReady c s = Inr s1"
      "trace s1 = trace s @ map (\<lambda>k. Called k (Some c)) ks @
         (if ks = [] then [] else Dispatched e ''ready'' True # calls (handlers x ''ready''))"
      "queue s1 c = []" "isReady s1 c"
    by blast
  from s1(4) obtain r1 where "comps s1 c = Some r1"
    by (auto simp: isReady_def split: option.splits)
  from triggerReady_empty [OF this s1(3)] s1(1,2,3)
  show "\<exists>s1. Component_triggerReady c s = Inr s1 \<and>
          trace s1 = trace s @ map (\<lambda>k. Called k (Some c)) ks @
            (if ks = [] then [] else Dispatched e ''ready'' True # calls (handlers x ''ready'')) \<and>
          queue s1 c = [] \<and>
          (\<exists>s2. Component_triggerReady c s1 = Inr s2 \<and> trace s2 = trace s1)"
    by blast
qed

theorem ready_semantics_witness:
  "(\<exists>s1. Component_ready 0 (Some (User 9)) readyDemo = Inr s1 \<and>
         queue s1 0 = [User 1, User 2, User 9] \<and> trace s1 = []) \<and>
   (\<exists>s1. Component_triggerReady 0 readyDemo = Inr s1 \<and>
         trace s1 = [Called 1 (Some 0), Called 2 (Some 0), Dispatched 0 ''ready'' True,
                     Called 3 (Some 0)] \<and>
         queue s1 0 = [] \<and>
         Component_ready 0 (Some (User 9)) s1 = Inr (emit [Called 9 (Some 0)] s1) \<and>
         (\<exists>s2. Component_triggerReady 0 s1 = Inr s2 \<and> trace s2 = trace s1))"
proof -
  let ?r = "(leaf ''a'' 0)\<lparr>readyQueue' := Some [User 1, User 2]\<rparr>"
  let ?x = "blank\<lparr>handlers := (\<lambda>t. [])(''ready'' := [(GNum 5, Bound 0 (User 3) (GNum 5))])\<rparr>"
  have c: "comps readyDemo 0 = Some ?r"
    by (simp add: readyDemo_def initial_def)
  have n: "\<not> isReady readyDemo 0"
    by (simp add: isReady_def readyDemo_def initial_def leaf_def)
  have q: "queue readyDemo 0 = map User [1, 2]"
    by (simp add: queue_def readyDemo_def initial_def leaf_def)
  have e: "el readyDemo 0 = El 0" "els readyDemo 0 = Some ?x"
    by (simp_all add: el_def readyDemo_def initial_def leaf_def)
  have p: "\<forall>h\<in>set (handlers ?x ''ready''). plain h"
    by (simp add: plain_def)
  have t: "trace readyDemo = []"
    by (simp add: readyDemo_def initial_def)
  note th = ready_semantics [OF c, of "User 9" 9 "[1, 2]" 0 ?x]
  from th n q t have a: "\<exists>s1. Component_ready 0 (Some (User 9)) readyDemo = Inr s1 \<and>
         queue s1 0 = [User 1, User 2, User 9] \<and> trace s1 = []"
    by simp
  from th q e p obtain s1 where s1: "Component_triggerReady 0 readyDemo = Inr s1"
      "trace s1 = trace readyDemo @ map (\<lambda>k. Called k (Some 0)) [1, 2] @
         (if [1, 2] = ([]::nat list) then []
          else Dispatched 0 ''ready'' True # calls (handlers ?x ''ready''))"
      "queue s1 0 = []"
      "\<exists>s2. Component_triggerReady 0 s1 = Inr s2 \<and> trace s2 = trace s1"
    by blast
  from th s1(1) have i: "Component_ready 0 (Some (User 9)) s1 = Inr (emit [Called 9 (Some 0)] s1)"
    by blast
  from s1(2) t have "trace s1 = [Called 1 (Some 0), Called 2 (Some 0), Dispatched 0 ''ready'' True,
                     Called 3 (Some 0)]"
    by (simp add: blank_def)
  with a s1 i show ?thesis by blast
qed

subsection \<open>Removing a child\<close>

lemma spliceLast_None: "spliceLast ks c n = None \<longleftrightarrow> (\<forall>i<n. ks ! i \<noteq> c)"
  by (induction n) (auto simp: less_Suc_eq)

lemma spliceLast_Some:
  "spliceLast ks c n = Some ks' \<longleftrightarrow>
     (\<exists>i<n. ks ! i = c \<and> (\<forall>j. i < j \<and> j < n \<longrightarrow> ks ! j \<noteq> c) \<and> ks' = take i ks @ drop (Suc i) ks)"
proof (induction n)
  case 0
  then show ?case by simp
next
  case (Suc n)
  show ?case
  proof (cases "ks ! n = c")
    case True
    have "(\<exists>i<Suc n. ks ! i = c \<and> (\<forall>j. i < j \<and> j < Suc n \<longrightarrow> ks ! j \<noteq> c) \<and>
            ks' = take i ks @ drop (Suc i) ks) \<longleftrightarrow> ks' = take n ks @ drop (Suc n) ks"
    proof
      assume "\<exists>i<Suc n. ks ! i = c \<and> (\<forall>j. i < j \<and> j < Suc n \<longrightarrow> ks ! j \<noteq> c) \<and>
            ks' = take i ks @ drop (Suc i) ks"
      then obtain i where i: "i < Suc n" "\<forall>j. i < j \<and> j < Suc n \<longrightarrow> ks ! j \<noteq> c"
        "ks' = take i ks @ drop (Suc i) ks" by blast
      have "i = n"
      proof (rule ccontr)
        assume "i \<noteq> n"
        with i(1) have "i < n" by simp
        with i(2) True show False by auto
      qed
      with i(3) show "ks' = take n ks @ drop (Suc n) ks" by simp
    next
      assume "ks' = take n ks @ drop (Suc n) ks"
      with True show "\<exists>i<Suc n. ks ! i = c \<and> (\<forall>j. i < j \<and> j < Suc n \<longrightarrow> ks ! j \<noteq> c) \<and>
            ks' = take i ks @ drop (Suc i) ks"
        by (intro exI [of _ n]) auto
    qed
    with True show ?thesis by auto
  next
    case False
    have "(\<exists>i<Suc n. ks ! i = c \<and> (\<forall>j. i < j \<and> j < Suc n \<longrightarrow> ks ! j \<noteq> c) \<and>
            ks' = take i ks @ drop (Suc i) ks) \<longleftrightarrow>
          (\<exists>i<n. ks ! i = c \<and> (\<forall>j. i < j \<and> j < n \<longrightarrow> ks ! j \<noteq> c) \<and>
            ks' = take i ks @ drop (Suc i) ks)"
      using False by (metis less_Suc_eq)
    with False Suc show ?thesis by simp
  qed
qed

lemma removeChild_torn_down:
  assumes "children s p = None"
  shows "removeChild p (Instance k) s = Inr s"
  using assms by (simp add: removeChild_def)

lemma removeChild_not_found:
  assumes "children s p = Some ks" "k \<notin> set ks"
  shows "removeChild p (Instance k) s = Inr s"
proof -
  from assms(2) have "spliceLast ks k (length ks) = None"
    by (auto simp: spliceLast_None)
  with assms(1) show ?thesis by (simp add: removeChild_def)
qed

lemma removeChild_by_name:
  "removeChild p (ByName n) s =
     (case getChild p n s of
        Inl err \<Rightarrow> Inl err
      | Inr None \<Rightarrow> Inr s
      | Inr (Some k) \<Rightarrow> removeChild p (Instance k) s)"
  by (simp add: removeChild_def bindE_def split: sum.splits option.splits)

lemma contentEl_updComp_children [simp]:
  "contentEl (updComp p (\<lambda>r. r\<lparr>children' := a, childIndex' := b, childNameIndex' := c\<rparr>) s) = contentEl s"
  by (rule ext) (simp add: contentEl_def updComp_def split: option.splits)

lemma el_updComp_children [simp]:
  "el (updComp p (\<lambda>r. r\<lparr>children' := a, childIndex' := b, childNameIndex' := c\<rparr>) s) = el s"
  by (rule ext) (simp add: el_def updComp_def split: option.splits)

lemma removeChild_found:
  assumes P: "comps s p = Some r" and C: "comps s k = Some rk"
    and ks: "children' r = Some ks" "k \<in> set ks"
    and ix: "childIndex' r = Some ix" "childNameIndex' r = Some nix"
  shows "\<exists>ks'. spliceLast ks k (length ks) = Some ks' \<and>
           removeChild p (Instance k) s =
            (let s1 = updComp p (\<lambda>r. r\<lparr>children' := Some ks',
                         childIndex' := Some (ix(id' rk \<mapsto> None)),
                         childNameIndex' := Some (nix(nameKey rk \<mapsto> None))\<rparr>) s
             in case el' rk of
                  El compEl \<Rightarrow>
                    (case els s compEl of
                       None \<Rightarrow> Inl TypeError
                     | Some x \<Rightarrow> if insideContentEl s p compEl then Inr (Dom_removeChild compEl s1) else Inr s1)
                | _ \<Rightarrow> Inr s1)"
proof -
  from ks(2) obtain i where "i < length ks" "ks ! i = k" by (auto simp: in_set_conv_nth)
  then have "spliceLast ks k (length ks) \<noteq> None" by (auto simp: spliceLast_None)
  then obtain ks' where ks': "spliceLast ks k (length ks) = Some ks'" by auto
  have elk: "el s k = el' rk"
    using C by (simp add: el_def)
  show ?thesis
    using P C ks ix ks'
    by (auto simp: removeChild_def children_def nameKey_def Let_def elk insideContentEl_def parentOf_def
             split: elref.splits option.splits)
qed

lemma parentOf_updComp [simp]: "parentOf (updComp c f s) = parentOf s"
  by (rule ext) (simp add: parentOf_def)

lemma listeners_updComp [simp]: "listeners (updComp c f s) = listeners s"
  by (rule ext)+ (simp add: listeners_def)

lemma listeners_emit [simp]: "listeners (emit xs s) = listeners s"
  by (rule ext)+ (simp add: listeners_def)

lemma parentOf_emit [simp]: "parentOf (emit xs s) = parentOf s"
  by (rule ext) (simp add: parentOf_def)

lemma Dom_removeChild_simps [simp]:
  "comps (Dom_removeChild e s) = comps s"
  "trace (Dom_removeChild e s) = trace s @ [Detached e]"
  "listeners (Dom_removeChild e s) = listeners s"
  "parentOf (Dom_removeChild e s) = (parentOf s)(e := None)"
  "el (Dom_removeChild e s) = el s"
  "children (Dom_removeChild e s) = children s"
  by (auto simp: Dom_removeChild_def listeners_def parentOf_def fun_eq_iff split: option.splits)

lemma getChild_Dom_removeChild [simp]:
  "getChildById p i (Dom_removeChild e s) = getChildById p i s"
  "getChild p n (Dom_removeChild e s) = getChild p n s"
  by (simp_all add: getChildById_def getChild_def)

text \<open>
  C7. \<^verbatim>\<open>P.removeChild(C)\<close> for a component \<open>C\<close>:
  \<^item> changes nothing when \<open>P\<close>'s child list is \<^verbatim>\<open>null\<close> (the tree is torn down) or
    \<open>C\<close> is not in it; given a name, it looks the component up in the name index first and
    changes nothing when the name is not there;
  \<^item> otherwise removes one entry of \<open>C\<close> from the list, the one with the largest index,
    sets the id index at \<open>C\<close>'s id and the name index at \<open>C\<close>'s name to \<^verbatim>\<open>null\<close>, and
    detaches \<open>C\<close>'s element exactly when its parent is \<open>P\<close>'s content element;
  \<^item> does not dispose \<open>C\<close>: \<open>C\<close> keeps its element, no other component's record and no
    listener changes, and the trace gains at most the detaching of the element.
\<close>

theorem removeChild_semantics:
  assumes P: "comps s p = Some r" and C: "comps s k = Some rk"
  shows
    "(children s p = None \<longrightarrow> removeChild p (Instance k) s = Inr s) \<and>
     (\<forall>ks. children s p = Some ks \<and> k \<notin> set ks \<longrightarrow> removeChild p (Instance k) s = Inr s) \<and>
     removeChild p (ByName n) s =
       (case getChild p n s of
          Inl err \<Rightarrow> Inl err
        | Inr None \<Rightarrow> Inr s
        | Inr (Some c) \<Rightarrow> removeChild p (Instance c) s) \<and>
     (\<forall>ks. children s p = Some ks \<and> k \<in> set ks \<and> childIndex' r \<noteq> None \<and>
           childNameIndex' r \<noteq> None \<and> elementPresent s k \<longrightarrow>
        (\<exists>s' i. removeChild p (Instance k) s = Inr s' \<and>
           i < length ks \<and> ks ! i = k \<and> (\<forall>j. i < j \<and> j < length ks \<longrightarrow> ks ! j \<noteq> k) \<and>
           children s' p = Some (take i ks @ drop (Suc i) ks) \<and>
           getChildById p (id' rk) s' = Inr None \<and>
           getChild p (nameKey rk) s' = Inr None \<and>
           (\<forall>e. parentOf s' e =
                  (if el s k = El e \<and> insideContentEl s p e then None else parentOf s e)) \<and>
           el s' k = el s k \<and>
           (\<forall>c. c \<noteq> p \<longrightarrow> comps s' c = comps s c) \<and>
           (\<forall>e ty. listeners s' e ty = listeners s e ty) \<and>
           trace s' = trace s @
             (case el s k of
                El e \<Rightarrow> if insideContentEl s p e then [Detached e] else []
              | _ \<Rightarrow> [])))"
proof (intro conjI impI allI)
  assume "children s p = None"
  then show "removeChild p (Instance k) s = Inr s" by (rule removeChild_torn_down)
next
  fix ks assume "children s p = Some ks \<and> k \<notin> set ks"
  then show "removeChild p (Instance k) s = Inr s" by (simp add: removeChild_not_found)
next
  show "removeChild p (ByName n) s =
       (case getChild p n s of
          Inl err \<Rightarrow> Inl err
        | Inr None \<Rightarrow> Inr s
        | Inr (Some c) \<Rightarrow> removeChild p (Instance c) s)"
    by (rule removeChild_by_name)
next
  fix ks
  assume h: "children s p = Some ks \<and> k \<in> set ks \<and> childIndex' r \<noteq> None \<and>
           childNameIndex' r \<noteq> None \<and> elementPresent s k"
  with P have ks: "children' r = Some ks" "k \<in> set ks" by (simp_all add: children_def)
  from h obtain ix nix where ix: "childIndex' r = Some ix" "childNameIndex' r = Some nix" by auto
  have elk: "el s k = el' rk" using C by (simp add: el_def)
  from removeChild_found [OF P C ks ix] obtain ks' where both:
    "spliceLast ks k (length ks) = Some ks' \<and>
     removeChild p (Instance k) s =
            (let s1 = updComp p (\<lambda>r. r\<lparr>children' := Some ks',
                         childIndex' := Some (ix(id' rk \<mapsto> None)),
                         childNameIndex' := Some (nix(nameKey rk \<mapsto> None))\<rparr>) s
             in case el' rk of
                  El compEl \<Rightarrow>
                    (case els s compEl of
                       None \<Rightarrow> Inl TypeError
                     | Some x \<Rightarrow> if insideContentEl s p compEl then Inr (Dom_removeChild compEl s1) else Inr s1)
                | _ \<Rightarrow> Inr s1)" ..
  note sp = conjunct1 [OF both] and rc = conjunct2 [OF both]
  from sp obtain i where i: "i < length ks" "ks ! i = k" "\<forall>j. i < j \<and> j < length ks \<longrightarrow> ks ! j \<noteq> k"
    "ks' = take i ks @ drop (Suc i) ks"
    unfolding spliceLast_Some by blast
  let ?s1 = "updComp p (\<lambda>r. r\<lparr>children' := Some ks',
                         childIndex' := Some (ix(id' rk \<mapsto> None)),
                         childNameIndex' := Some (nix(nameKey rk \<mapsto> None))\<rparr>) s"
  have s1: "children ?s1 p = Some ks'" "getChildById p (id' rk) ?s1 = Inr None"
    "getChild p (nameKey rk) ?s1 = Inr None" "\<forall>c. c \<noteq> p \<longrightarrow> comps ?s1 c = comps s c"
    using P by (simp_all add: children_def getChildById_def getChild_def)
  define s' where "s' = (case el' rk of
       El compEl \<Rightarrow> if insideContentEl s p compEl then Dom_removeChild compEl ?s1 else ?s1
     | _ \<Rightarrow> ?s1)"
  have res: "removeChild p (Instance k) s = Inr s'"
  proof (cases "el' rk")
    case (El compEl)
    with h elk obtain x where "els s compEl = Some x"
      by (auto simp: elementPresent_def)
    with El show ?thesis unfolding rc s'_def by (simp add: Let_def)
  qed (simp_all add: rc s'_def Let_def)
  have s'c: "comps s' = comps ?s1"
    by (cases "el' rk") (simp_all add: s'_def)
  have a1: "children s' p = Some (take i ks @ drop (Suc i) ks)"
    using s1(1) i(4) s'c by (simp add: children_def)
  have a2: "getChildById p (id' rk) s' = Inr None"
    using s1(2) s'c by (simp add: getChildById_def)
  have a3: "getChild p (nameKey rk) s' = Inr None"
    using s1(3) s'c by (simp add: getChild_def)
  have a4: "\<forall>e. parentOf s' e =
                  (if el s k = El e \<and> insideContentEl s p e then None else parentOf s e)"
    by (cases "el' rk") (auto simp: s'_def elk insideContentEl_def)
  have a5: "el s' k = el s k"
    by (cases "el' rk") (simp_all add: s'_def)
  have a6: "\<forall>c. c \<noteq> p \<longrightarrow> comps s' c = comps s c"
    using s1(4) s'c by simp
  have a7: "\<forall>e ty. listeners s' e ty = listeners s e ty"
    by (cases "el' rk") (simp_all add: s'_def)
  have a8: "trace s' = trace s @
             (case el s k of
                El e \<Rightarrow> if insideContentEl s p e then [Detached e] else []
              | _ \<Rightarrow> [])"
    by (cases "el' rk") (simp_all add: s'_def elk)
  show "\<exists>s' i. removeChild p (Instance k) s = Inr s' \<and>
           i < length ks \<and> ks ! i = k \<and> (\<forall>j. i < j \<and> j < length ks \<longrightarrow> ks ! j \<noteq> k) \<and>
           children s' p = Some (take i ks @ drop (Suc i) ks) \<and>
           getChildById p (id' rk) s' = Inr None \<and>
           getChild p (nameKey rk) s' = Inr None \<and>
           (\<forall>e. parentOf s' e =
                  (if el s k = El e \<and> insideContentEl s p e then None else parentOf s e)) \<and>
           el s' k = el s k \<and>
           (\<forall>c. c \<noteq> p \<longrightarrow> comps s' c = comps s c) \<and>
           (\<forall>e ty. listeners s' e ty = listeners s e ty) \<and>
           trace s' = trace s @
             (case el s k of
                El e \<Rightarrow> if insideContentEl s p e then [Detached e] else []
              | _ \<Rightarrow> [])"
    apply (rule exI [of _ s'])
    apply (rule exI [of _ i])
    apply (intro conjI)
    apply (rule res, rule i(1), rule i(2), rule i(3), rule a1, rule a2, rule a3, rule a4,
           rule a5, rule a6, rule a7, rule a8)
    done
qed

theorem removeChild_semantics_witness:
  "removeChild 3 (Instance 1) removeDemo = Inr removeDemo \<and>
   removeChild 1 (Instance 2) removeDemo = Inr removeDemo \<and>
   (\<exists>s'. removeChild 0 (Instance 1) removeDemo = Inr s' \<and>
         children s' 0 = Some [1, 2] \<and>
         getChildById 0 ''a'' s' = Inr None \<and> getChild 0 ''x'' s' = Inr None \<and>
         parentOf s' 1 = None \<and> parentOf s' 2 = Some 0 \<and>
         el s' 1 = El 1 \<and> comps s' 1 = comps removeDemo 1 \<and> trace s' = [Detached 1])"
proof -
  let ?p = "(leaf ''p'' 0)\<lparr>children' := Some [1, 2, 1],
                    childIndex' := Some [''a'' \<mapsto> Some 1, ''b'' \<mapsto> Some 2],
                    childNameIndex' := Some [''x'' \<mapsto> Some 1]\<rparr>"
  let ?a = "(leaf ''a'' 1)\<lparr>name' := Some ''x''\<rparr>"
  let ?d = "(leaf ''d'' 3)\<lparr>children' := None\<rparr>"
  have c0: "comps removeDemo 0 = Some ?p" and c1: "comps removeDemo 1 = Some ?a"
    and c2: "comps removeDemo 2 = Some (leaf ''b'' 2)" and c3: "comps removeDemo 3 = Some ?d"
    by (simp_all add: removeDemo_def initial_def)
  have k3: "children removeDemo 3 = None"
    by (simp add: children_def removeDemo_def initial_def leaf_def)
  have k1: "children removeDemo 1 = Some [] \<and> 2 \<notin> set ([]::nat list)"
    by (simp add: children_def removeDemo_def initial_def leaf_def)
  have k0: "children removeDemo 0 = Some [1, 2, 1] \<and> 1 \<in> set [1, 2, 1::nat] \<and>
            childIndex' ?p \<noteq> None \<and> childNameIndex' ?p \<noteq> None \<and> elementPresent removeDemo 1"
    by (simp add: children_def leaf_def elementPresent_def el_def removeDemo_def initial_def)
  have e1: "el removeDemo 1 = El 1"
    by (simp add: el_def leaf_def removeDemo_def initial_def)
  have ic: "insideContentEl removeDemo 0 1"
    by (simp add: insideContentEl_def parentOf_def contentEl_def leaf_def
          removeDemo_def initial_def blank_def)
  have po: "parentOf removeDemo 2 = Some 0"
    by (simp add: parentOf_def removeDemo_def initial_def blank_def)
  have tr: "trace removeDemo = []"
    by (simp add: removeDemo_def initial_def)
  have A: "removeChild 3 (Instance 1) removeDemo = Inr removeDemo"
    using removeChild_semantics [OF c3 c1] k3 by blast
  have B: "removeChild 1 (Instance 2) removeDemo = Inr removeDemo"
    using removeChild_semantics [OF c1 c2] k1 by blast
  from removeChild_semantics [OF c0 c1] k0 obtain s' i where
    r: "removeChild 0 (Instance 1) removeDemo = Inr s'"
    and i: "i < length [1, 2, 1::nat]" "\<forall>j. i < j \<and> j < length [1, 2, 1::nat] \<longrightarrow> [1, 2, 1::nat] ! j \<noteq> 1"
    and ch: "children s' 0 = Some (take i [1, 2, 1] @ drop (Suc i) [1, 2, 1])"
    and ix: "getChildById 0 (id' ?a) s' = Inr None" "getChild 0 (nameKey ?a) s' = Inr None"
    and pa: "\<forall>e. parentOf s' e =
        (if el removeDemo 1 = El e \<and> insideContentEl removeDemo 0 e then None else parentOf removeDemo e)"
    and el: "el s' 1 = el removeDemo 1"
    and co: "\<forall>c. c \<noteq> 0 \<longrightarrow> comps s' c = comps removeDemo c"
    and t: "trace s' = trace removeDemo @
             (case el removeDemo 1 of
                El e \<Rightarrow> if insideContentEl removeDemo 0 e then [Detached e] else []
              | _ \<Rightarrow> [])"
    by blast
  have "i = 2"
  proof (rule ccontr)
    assume "i \<noteq> 2"
    with i(1) have "i < 2" by simp
    moreover from i(2) have "i < 2 \<and> 2 < length [1, 2, 1::nat] \<longrightarrow> [1, 2, 1::nat] ! 2 \<noteq> 1"
      by (rule spec)
    ultimately show False by simp
  qed
  with ch have ch': "children s' 0 = Some [1, 2]" by simp
  have "getChildById 0 ''a'' s' = Inr None" "getChild 0 ''x'' s' = Inr None"
    using ix by (simp_all add: leaf_def nameKey_def)
  moreover have "parentOf s' 1 = None" "parentOf s' 2 = Some 0"
    using pa e1 ic po by simp_all
  moreover have "el s' 1 = El 1" using el e1 by simp
  moreover have "comps s' 1 = comps removeDemo 1" using co by simp
  moreover have "trace s' = [Detached 1]" using t tr e1 ic by simp
  ultimately show ?thesis using A B r ch' by blast
qed

subsection \<open>Disposal leaves nothing behind\<close>

lemma elmono_refl: "elmono s s"
  by (simp add: elmono_def)

lemma elmono_trans: "elmono s s1 \<Longrightarrow> elmono s1 s2 \<Longrightarrow> elmono s s2"
  by (simp add: elmono_def)

lemma elmono_comps: "comps s' = comps s \<Longrightarrow> elmono s s'"
  by (simp add: elmono_def el_def)

lemma dispose_release_Inr:
  assumes "dispose_release c s = Inr s'"
  shows "\<exists>e x. el s c = El e \<and> els s e = Some x \<and>
           s' = emit [ElNulled c] (updComp c (\<lambda>r. r\<lparr>el' := Null\<rparr>)
                  (Dom_removeElData e
                    ((if parentNode x = None then id else Dom_removeChild e)
                      (emit [ListenersCleared e] (updEl e (\<lambda>x. x\<lparr>handlers := (\<lambda>t. [])\<rparr>)
                        (emit [ChildrenNulled c]
                          (updComp c (\<lambda>r. r\<lparr>children' := None, childIndex' := None,
                                                childNameIndex' := None\<rparr>) s)))))))"
proof -
  let ?s1 = "emit [ChildrenNulled c]
               (updComp c (\<lambda>r. r\<lparr>children' := None, childIndex' := None, childNameIndex' := None\<rparr>) s)"
  have e1: "el ?s1 c = el s c" by (simp add: el_def split: option.splits)
  from assms obtain s2 where off: "Component_off c None None ?s1 = Inr s2"
    by (auto simp: dispose_release_def Let_def bindE_eq_Inr)
  then obtain e where e: "el s c = El e"
    by (cases "el s c") (auto simp: Component_off_def Events_off_def e1)
  with off obtain x1 where x1: "els ?s1 e = Some x1"
    by (cases "els ?s1 e") (auto simp: Component_off_def Events_off_def e1)
  then have x: "els s e = Some x1" by simp
  from off e x1 have s2: "s2 = emit [ListenersCleared e] (updEl e (\<lambda>x. x\<lparr>handlers := (\<lambda>t. [])\<rparr>) ?s1)"
    by (simp add: Component_off_def Events_off_def e1)
  have e2: "el s2 c = El e" using e e1 by (simp add: s2)
  have x2: "els s2 e = Some (x1\<lparr>handlers := (\<lambda>t. [])\<rparr>)" using x by (simp add: s2)
  from assms off have "s' = emit [ElNulled c] (updComp c (\<lambda>r. r\<lparr>el' := Null\<rparr>)
                  (Dom_removeElData e
                    ((if parentNode x1 = None then id else Dom_removeChild e) s2)))"
    by (auto simp: dispose_release_def Let_def e2 x2 split: option.splits)
  with e x s2 show ?thesis by blast
qed

lemma Dom_removeElData_simps [simp]:
  "comps (Dom_removeElData e s) = comps s"
  "el (Dom_removeElData e s) = el s"
  "children (Dom_removeElData e s) = children s"
  "trace (Dom_removeElData e s) = trace s @ [DataReleased e]"
  "els (Dom_removeElData e s) = (els s)(e := map_option (\<lambda>x. x\<lparr>handlers := (\<lambda>t. [])\<rparr>) (els s e))"
  by (simp_all add: Dom_removeElData_def)

lemma els_Dom_removeChild [simp]:
  "els (Dom_removeChild e s) = (els s)(e := map_option (\<lambda>x. x\<lparr>parentNode := None\<rparr>) (els s e))"
  by (simp add: Dom_removeChild_def)

lemma dispose_release_facts:
  assumes "dispose_release c s = Inr s'"
  shows "\<exists>e. el s c = El e \<and> el s' c = Null \<and> children s' c = None \<and>
           (\<forall>ty. listeners s' e ty = []) \<and> els s' e \<noteq> None \<and>
           (\<forall>k. k \<noteq> c \<longrightarrow> comps s' k = comps s k)"
proof -
  from dispose_release_Inr [OF assms] obtain e x where
    e: "el s c = El e" and x: "els s e = Some x" and
    s': "s' = emit [ElNulled c] (updComp c (\<lambda>r. r\<lparr>el' := Null\<rparr>)
                  (Dom_removeElData e
                    ((if parentNode x = None then id else Dom_removeChild e)
                      (emit [ListenersCleared e] (updEl e (\<lambda>x. x\<lparr>handlers := (\<lambda>t. [])\<rparr>)
                        (emit [ChildrenNulled c]
                          (updComp c (\<lambda>r. r\<lparr>children' := None, childIndex' := None,
                                                childNameIndex' := None\<rparr>) s)))))))"
    by blast
  from e obtain r where r: "comps s c = Some r" by (auto simp: el_def split: option.splits)
  have "el s' c = Null" using r by (simp add: s' el_def)
  moreover have "children s' c = None" using r by (simp add: s' children_def)
  moreover have "\<forall>ty. listeners s' e ty = []" using x by (simp add: s' listeners_def)
  moreover have "els s' e \<noteq> None" using x by (simp add: s')
  moreover have "\<forall>k. k \<noteq> c \<longrightarrow> comps s' k = comps s k" by (simp add: s')
  ultimately show ?thesis using e by blast
qed

lemma dispose_release_elmono:
  assumes "dispose_release c s = Inr s'"
  shows "elmono s s'"
proof -
  from dispose_release_facts [OF assms] obtain e where
    f: "el s' c = Null" "\<forall>k. k \<noteq> c \<longrightarrow> comps s' k = comps s k" by blast
  show ?thesis
    unfolding elmono_def
  proof (intro allI impI)
    fix k e assume k: "el s' k = El e"
    with f(1) have "k \<noteq> c" by auto
    with f(2) have "comps s' k = comps s k" by simp
    with k show "el s k = El e" by (simp add: el_def)
  qed
qed

lemma disposeLoop_elmono:
  assumes d: "\<And>k s s'. d k s = Inr s' \<Longrightarrow> elmono s s'"
  shows "disposeLoop d c i s = Inr s' \<Longrightarrow> elmono s s'"
proof (induction i arbitrary: s)
  case 0
  then show ?case by (simp add: elmono_refl)
next
  case (Suc i)
  from Suc.prems obtain ks s1 where "children s c = Some ks" "i < length ks"
    "d (ks ! i) s = Inr s1" "disposeLoop d c i s1 = Inr s'"
    by (auto simp: bindE_eq_Inr split: option.splits if_splits)
  with d Suc.IH show ?case by (blast intro: elmono_trans)
qed

lemma dispose_Suc_Inr:
  assumes "dispose (Suc n) c s = Inr s'"
  shows "\<exists>s1 s2. Component_trigger c ''dispose'' False s = Inr s1 \<and>
           (case children s1 c of
              None \<Rightarrow> Inr s1
            | Some ks \<Rightarrow> disposeLoop (dispose n) c (length ks) s1) = Inr s2 \<and>
           dispose_release c s2 = Inr s'"
  using assms by (simp add: bindE_eq_Inr)

lemma dispose_elmono: "dispose n c s = Inr s' \<Longrightarrow> elmono s s'"
proof (induction n arbitrary: c s s')
  case 0
  then show ?case by simp
next
  case (Suc n)
  from dispose_Suc_Inr [OF Suc.prems] obtain s1 s2 where
    t: "Component_trigger c ''dispose'' False s = Inr s1" and
    l: "(case children s1 c of
              None \<Rightarrow> Inr s1
            | Some ks \<Rightarrow> disposeLoop (dispose n) c (length ks) s1) = Inr s2" and
    r: "dispose_release c s2 = Inr s'"
    by blast
  from t have a: "elmono s s1" by (intro elmono_comps Component_trigger_comps)
  have b: "elmono s1 s2"
  proof (cases "children s1 c")
    case None
    with l show ?thesis by (simp add: elmono_refl)
  next
    case (Some ks)
    with l have "disposeLoop (dispose n) c (length ks) s1 = Inr s2" by simp
    then show ?thesis by (rule disposeLoop_elmono [rotated]) (rule Suc.IH)
  qed
  from r have "elmono s2 s'" by (rule dispose_release_elmono)
  with a b show ?case by (blast intro: elmono_trans)
qed

text \<open>
  C2. If a component \<open>c\<close> owns the element \<open>e\<close> and \<^verbatim>\<open>c.dispose()\<close> returns, then
  afterwards \<^verbatim>\<open>c.children()\<close> is \<^verbatim>\<open>null\<close>, \<^verbatim>\<open>c.el()\<close> is \<^verbatim>\<open>null\<close>, no listener is
  left on \<open>e\<close> for any event type, and dispatching any event on \<open>e\<close> calls nothing: the
  trace gains the dispatch and no call.
\<close>

theorem dispose_clears:
  assumes "el s c = El e" and "dispose n c s = Inr s'"
  shows "children s' c = None \<and> el s' c = Null \<and> (\<forall>ty. listeners s' e ty = []) \<and>
         (\<forall>ty b. Events_trigger (El e) ty b s' = Inr (emit [Dispatched e ty b] s'))"
proof -
  from assms(2) obtain m where n: "n = Suc m" by (cases n) auto
  from dispose_Suc_Inr [OF assms(2) [unfolded n]] obtain s1 s2 where
    t: "Component_trigger c ''dispose'' False s = Inr s1" and
    l: "(case children s1 c of
              None \<Rightarrow> Inr s1
            | Some ks \<Rightarrow> disposeLoop (dispose m) c (length ks) s1) = Inr s2" and
    r: "dispose_release c s2 = Inr s'"
    by blast
  from t have a: "elmono s s1" by (intro elmono_comps Component_trigger_comps)
  have b: "elmono s1 s2"
  proof (cases "children s1 c")
    case None
    with l show ?thesis by (simp add: elmono_refl)
  next
    case (Some ks)
    with l have "disposeLoop (dispose m) c (length ks) s1 = Inr s2" by simp
    then show ?thesis by (rule disposeLoop_elmono [rotated]) (rule dispose_elmono)
  qed
  from dispose_release_facts [OF r] obtain e2 where
    f: "el s2 c = El e2" "el s' c = Null" "children s' c = None"
       "\<forall>ty. listeners s' e2 ty = []" "els s' e2 \<noteq> None"
    by blast
  from a b f(1) have "el s c = El e2" by (simp add: elmono_def)
  with assms(1) have [simp]: "e2 = e" by simp
  have "\<forall>ty b. Events_trigger (El e) ty b s' = Inr (emit [Dispatched e ty b] s')"
    using f(4,5) by (auto simp: Events_trigger_def listeners_def)
  with f show ?thesis by simp
qed

subsection \<open>An example of disposal\<close>

lemma isOK_Inr: "isOK m \<Longrightarrow> \<exists>x. m = Inr x"
  by (cases m) (simp_all add: isOK_def)

theorem dispose_clears_witness:
  "listeners familyDemo 0 ''click'' = [(GNum 5, Bound 0 (User 3) (GNum 5))] \<and>
   (\<exists>s'. dispose 2 0 familyDemo = Inr s' \<and>
         children s' 0 = None \<and> el s' 0 = Null \<and> listeners s' 0 ''click'' = [] \<and>
         Events_trigger (El 0) ''click'' True s' = Inr (emit [Dispatched 0 ''click'' True] s'))"
proof -
  have "isOK (dispose 2 0 familyDemo)"
    by code_simp
  then obtain s' where d: "dispose 2 0 familyDemo = Inr s'"
    using isOK_Inr by blast
  have e: "el familyDemo 0 = El 0"
    by (simp add: el_def familyDemo_def initial_def leaf_def)
  have l: "listeners familyDemo 0 ''click'' = [(GNum 5, Bound 0 (User 3) (GNum 5))]"
    by (simp add: listeners_def familyDemo_def initial_def blank_def)
  from dispose_clears [OF e d] d l show ?thesis by simp
qed

subsection \<open>Constructors leave existing components alone\<close>

lemma keeps_refl: "keeps p s s"
  by (simp add: keeps_def)

lemma keeps_trans: "keeps p s s1 \<Longrightarrow> keeps p s1 s2 \<Longrightarrow> keeps p s s2"
  by (auto simp: keeps_def)

lemma getComponent_state:
  "getComponent name s = (t, s') \<Longrightarrow> comps s' = comps s \<and> nextCid s' = nextCid s \<and> els s' = els s"
  by (auto simp: getComponent_def split: option.splits)

lemma nextCid_updEl [simp]: "nextCid (updEl e f s) = nextCid s"
  by (simp add: updEl_def)

lemma nextCid_updComp [simp]: "nextCid (updComp c f s) = nextCid s"
  by (simp add: updComp_def)

lemma nextCid_emit [simp]: "nextCid (emit xs s) = nextCid s"
  by (simp add: emit_def)

lemma adopt_keeps:
  assumes "adopt p k nm s = Inr (k', s')"
  shows "keeps p s s' \<and> k' = k"
proof -
  from assms obtain r rk ks ix nix where
    r: "comps s p = Some r" "comps s k = Some rk" "children' r = Some ks"
       "childIndex' r = Some ix" "childNameIndex' r = Some nix"
    by (auto simp: adopt_def split: option.splits)
  show ?thesis
    using assms r
    by (auto simp: adopt_def Let_def keeps_def el_def Dom_appendChild_def split: elref.splits)
qed

lemma booleanOptions_state:
  "booleanOptions opts s = (o', s') \<Longrightarrow>
     comps s' = comps s \<and> nextCid s' = nextCid s \<and> els s' = els s"
  by (auto simp: booleanOptions_def Let_def split: if_splits)

lemma addChild_ByName_Inr:
  assumes "addChild new p (ByName n) opts s = Inr (k, s')"
  shows "\<exists>o1 s1 cl s2 c s3.
           booleanOptions opts s = (o1, s1) \<and>
           getComponent (case strOpt (getProp o1 ''componentClass'') of
                           Some n \<Rightarrow> n | None \<Rightarrow> toTitleCase n) s1 = (Some cl, s2) \<and>
           new cl (Some (case playerOf s2 p of Some pl \<Rightarrow> pl | None \<Rightarrow> p))
             (JObj (AList.update ''name'' (JStr n) (props o1))) s2 = Inr (c, s3) \<and>
           adopt p c (Some n) s3 = Inr (k, s')"
proof -
  obtain o1 s1 where b: "booleanOptions opts s = (o1, s1)" by (cases "booleanOptions opts s")
  obtain cl s2 where g: "getComponent (case strOpt (getProp o1 ''componentClass'') of
                           Some n \<Rightarrow> n | None \<Rightarrow> toTitleCase n) s1 = (cl, s2)"
    by (cases "getComponent (case strOpt (getProp o1 ''componentClass'') of
                           Some n \<Rightarrow> n | None \<Rightarrow> toTitleCase n) s1")
  from assms b g show ?thesis
    by (cases cl) (auto simp: addChild_def Let_def bindE_eq_Inr)
qed

lemma addChild_keeps:
  assumes f: "framed new" and p: "p < nextCid s"
    and a: "addChild new p child opts s = Inr (k, s')"
  shows "keeps p s s'"
proof (cases child)
  case (Instance c)
  with a show ?thesis by (auto simp: addChild_def dest: adopt_keeps)
next
  case (ByName n)
  from addChild_ByName_Inr [OF a [unfolded ByName]] obtain o1 s1 cl s2 c s3 where
    b: "booleanOptions opts s = (o1, s1)"
    and g: "getComponent (case strOpt (getProp o1 ''componentClass'') of
                           Some n \<Rightarrow> n | None \<Rightarrow> toTitleCase n) s1 = (Some cl, s2)"
    and n: "new cl (Some (case playerOf s2 p of Some pl \<Rightarrow> pl | None \<Rightarrow> p))
             (JObj (AList.update ''name'' (JStr n) (props o1))) s2 = Inr (c, s3)"
    and ad: "adopt p c (Some n) s3 = Inr (k, s')"
    by blast
  from b have s1: "comps s1 = comps s" "nextCid s1 = nextCid s"
    by (simp_all add: booleanOptions_state)
  from g have s2: "comps s2 = comps s1" "nextCid s2 = nextCid s1"
    by (simp_all add: getComponent_state)
  from f n have s3: "nextCid s2 \<le> nextCid s3" "\<forall>c<nextCid s2. comps s3 c = comps s2 c"
    unfolding framed_def by blast+
  have "keeps p s s3"
    using s1 s2 s3 p by (simp add: keeps_def el_def)
  moreover from ad have "keeps p s3 s'" by (simp add: adopt_keeps)
  ultimately show ?thesis by (rule keeps_trans)
qed

lemma keeps_updComp_named:
  "keeps p s (updComp p (\<lambda>r. r\<lparr>named := x r\<rparr>) s)"
  by (simp add: keeps_def el_def split: option.splits)

lemma handleAdd_keeps:
  assumes f: "framed new" and p: "p < nextCid s"
    and a: "handleAdd new p po name opts s = Inr s'"
  shows "keeps p s s'"
proof -
  let ?o = "if getProp po name \<noteq> JUndefined then getProp po name else opts"
  show ?thesis
  proof (cases "?o = JBool False")
    case True
    with a show ?thesis by (simp add: handleAdd_def Let_def keeps_refl)
  next
    case False
    with a obtain k s1 where
      ac: "addChild new p (ByName name) ?o s = Inr (k, s1)"
      and s': "s' = updComp p (\<lambda>r. r\<lparr>named := (named r)(name \<mapsto> k)\<rparr>) s1"
      by (auto simp: handleAdd_def Let_def bindE_eq_Inr)
    from addChild_keeps [OF f p ac] have "keeps p s s1" .
    moreover have "keeps p s1 s'" unfolding s' by (rule keeps_updComp_named)
    ultimately show ?thesis by (rule keeps_trans)
  qed
qed

lemma forEachE_keeps:
  assumes step: "\<And>x s s'. p < nextCid s \<Longrightarrow> g x s = Inr s' \<Longrightarrow> keeps p s s'"
  shows "p < nextCid s \<Longrightarrow> forEachE g xs s = Inr s' \<Longrightarrow> keeps p s s'"
proof (induction xs arbitrary: s)
  case Nil
  then show ?case by (simp add: keeps_refl)
next
  case (Cons x xs)
  from Cons.prems(2) obtain s1 where a: "g x s = Inr s1" and b: "forEachE g xs s1 = Inr s'"
    by (auto simp: bindE_eq_Inr)
  from step [OF Cons.prems(1) a] have k: "keeps p s s1" .
  then have "p < nextCid s1" using Cons.prems(1) by (simp add: keeps_def)
  from Cons.IH [OF this b] k show ?case by (blast intro: keeps_trans)
qed

lemma initChildren_keeps:
  assumes f: "framed new" and p: "p < nextCid s"
    and a: "initChildren new p s = Inr s'"
  shows "keeps p s s'"
proof -
  from a obtain r where r: "comps s p = Some r"
    by (auto simp: initChildren_def split: option.splits)
  let ?ch = "getProp (options' r) ''children''"
  show ?thesis
  proof (cases "truthy ?ch")
    case False
    with a r show ?thesis by (simp add: initChildren_def Let_def keeps_refl)
  next
    case True
    show ?thesis
    proof (cases ?ch)
      case (JArr xs)
      with a r True have
        "forEachE (\<lambda>child s.
                          (case child of
                             JStr n \<Rightarrow> handleAdd new p (options' r) n (JObj []) s
                           | JObj kvs \<Rightarrow>
                               (case getProp child ''name'' of
                                  JStr n \<Rightarrow> handleAdd new p (options' r) n child s
                                | _ \<Rightarrow> Inl TypeError)
                           | _ \<Rightarrow> Inl TypeError)) xs s = Inr s'"
        by (simp add: initChildren_def Let_def)
      then show ?thesis
        by (rule forEachE_keeps [rotated 2])
           (auto split: jsval.splits intro: handleAdd_keeps [OF f] p)
    qed (use a r True in \<open>auto simp: initChildren_def Let_def keeps_refl
          intro: forEachE_keeps [rotated 2, where p = p] handleAdd_keeps [OF f] p\<close>)
  qed
qed

subsection \<open>A component without an element\<close>

lemma newGUID_state: "newGUID s = (g, s') \<Longrightarrow> comps s' = comps s \<and> nextCid s' = nextCid s \<and> els s' = els s \<and> nextEid s' = nextEid s"
  by (auto simp: newGUID_def)

lemma Dom_createEl_state:
  "Dom_createEl s = (e, s') \<Longrightarrow> comps s' = comps s \<and> nextCid s' = nextCid s \<and> e = nextEid s"
  by (auto simp: Dom_createEl_def)

lemma construct_id_state:
  "construct_id pl opts s = (i, s') \<Longrightarrow>
     comps s' = comps s \<and> nextCid s' = nextCid s \<and> els s' = els s \<and> nextEid s' = nextEid s"
  by (auto simp: construct_id_def Let_def split: option.splits prod.splits dest!: newGUID_state)

lemma construct_el_state:
  "construct_el opts s = (r, s') \<Longrightarrow>
     comps s' = comps s \<and> nextCid s' = nextCid s \<and>
     r = (case getProp opts ''el'' of
            JElem e \<Rightarrow> El e
          | _ \<Rightarrow> if getProp opts ''createEl'' \<noteq> JBool False then El (nextEid s) else Undefined)"
  by (auto simp: construct_el_def Let_def split: jsval.splits prod.splits if_splits
           dest!: Dom_createEl_state)

lemma construct_fields_facts:
  assumes "construct_fields cl pl opts s = (o1, s3)"
  shows "o1 = mergedOptions cl opts \<and> nextCid s3 = Suc (nextCid s) \<and>
         (\<forall>c. c \<noteq> nextCid s \<longrightarrow> comps s3 c = comps s c) \<and>
         el s3 (nextCid s) =
           (case getProp o1 ''el'' of
              JElem e \<Rightarrow> El e
            | _ \<Rightarrow> if getProp o1 ''createEl'' \<noteq> JBool False then El (nextEid s) else Undefined) \<and>
         children s3 (nextCid s) = Some [] \<and> queue s3 (nextCid s) = [] \<and>
         \<not> isReady s3 (nextCid s)"
proof -
  obtain i s1 where i: "construct_id pl (mergedOptions cl opts) s = (i, s1)"
    by (cases "construct_id pl (mergedOptions cl opts) s")
  obtain r s2 where r: "construct_el (mergedOptions cl opts) s1 = (r, s2)"
    by (cases "construct_el (mergedOptions cl opts) s1")
  note a = construct_id_state [OF i] and b = construct_el_state [OF r]
  from assms i r have o1: "o1 = mergedOptions cl opts"
    and s3: "s3 = s2\<lparr>comps := (comps s2)(nextCid s \<mapsto>
                 \<lparr>player' = pl, options' = o1, id' = i,
                  name' = strOpt (getProp o1 ''name''), el' = r, contentEl' = None,
                  children' = Some [], childIndex' = Some Map.empty,
                  childNameIndex' = Some Map.empty, readyQueue' = None, isReady' = False,
                  named = Map.empty\<rparr>),
             nextCid := Suc (nextCid s)\<rparr>"
    by (auto simp: construct_fields_def Let_def)
  show ?thesis
    using a b o1 by (simp add: s3 el_def children_def queue_def isReady_def split: jsval.splits)
qed

lemma Component_ready_keeps:
  assumes "Component_ready c fn s = Inr s'"
  shows "keeps c s s'"
proof (cases fn)
  case None
  with assms show ?thesis by (simp add: Component_ready_def keeps_refl)
next
  case (Some f)
  with assms obtain r where r: "comps s c = Some r"
    by (auto simp: Component_ready_def split: option.splits)
  show ?thesis
  proof (cases "isReady' r")
    case True
    with assms Some r have "call f (Some c) s = Inr s'" by (simp add: Component_ready_def)
    then have "sameObjects s s'" by (rule call_same)
    then show ?thesis by (simp add: keeps_def sameObjects_def el_def)
  next
    case False
    with assms Some r show ?thesis
      by (auto simp: Component_ready_def keeps_def el_def)
  qed
qed

lemma construct_framed: "framed (\<lambda>cl pl opts. construct n cl pl opts rdy)"
proof (induction n arbitrary: rdy)
  case 0
  show ?case by (simp add: framed_def)
next
  case (Suc n)
  show ?case
    unfolding framed_def
  proof (intro allI impI)
    fix cl pl opts s k s'
    assume a: "construct (Suc n) cl pl opts rdy s = Inr (k, s')"
    obtain o1 s3 where f: "construct_fields cl pl opts s = (o1, s3)"
      by (cases "construct_fields cl pl opts s")
    note ff = construct_fields_facts [OF f]
    from a f obtain s4 where
      i: "(if getProp o1 ''initChildren'' \<noteq> JBool False
                then initChildren (\<lambda>cl pl opts. construct n cl pl opts None) (nextCid s) s3
                else Inr s3) = Inr s4"
      and r: "Component_ready (nextCid s) rdy s4 = Inr s'"
      by (auto simp: Let_def bindE_eq_Inr)
    have lt: "nextCid s < nextCid s3" using ff by simp
    have k34: "keeps (nextCid s) s3 s4"
    proof (cases "getProp o1 ''initChildren'' \<noteq> JBool False")
      case True
      with i have "initChildren (\<lambda>cl pl opts. construct n cl pl opts None) (nextCid s) s3 = Inr s4"
        by simp
      from initChildren_keeps [OF Suc.IH lt this] show ?thesis .
    next
      case False
      with i show ?thesis by (simp add: keeps_refl)
    qed
    from r have "keeps (nextCid s) s4 s'" by (rule Component_ready_keeps)
    with k34 have "keeps (nextCid s) s3 s'" by (rule keeps_trans)
    with ff show "nextCid s \<le> nextCid s' \<and> (\<forall>c<nextCid s. comps s' c = comps s c)"
      by (auto simp: keeps_def)
  qed
qed

lemma construct_el:
  assumes a: "construct n cl pl opts rdy s = Inr (c, s')"
  shows "c = nextCid s \<and>
         el s' c =
           (case getProp (mergedOptions cl opts) ''el'' of
              JElem e \<Rightarrow> El e
            | _ \<Rightarrow> if getProp (mergedOptions cl opts) ''createEl'' \<noteq> JBool False
                   then El (nextEid s) else Undefined)"
proof -
  from a obtain m where n: "n = Suc m" by (cases n) auto
  obtain o1 s3 where f: "construct_fields cl pl opts s = (o1, s3)"
    by (cases "construct_fields cl pl opts s")
  note ff = construct_fields_facts [OF f]
  from a f obtain s4 where
    i: "(if getProp o1 ''initChildren'' \<noteq> JBool False
              then initChildren (\<lambda>cl pl opts. construct m cl pl opts None) (nextCid s) s3
              else Inr s3) = Inr s4"
    and r: "Component_ready (nextCid s) rdy s4 = Inr s'" and c: "c = nextCid s"
    by (auto simp: n Let_def bindE_eq_Inr)
  have lt: "nextCid s < nextCid s3" using ff by simp
  have k34: "keeps (nextCid s) s3 s4"
  proof (cases "getProp o1 ''initChildren'' \<noteq> JBool False")
    case True
    with i have "initChildren (\<lambda>cl pl opts. construct m cl pl opts None) (nextCid s) s3 = Inr s4"
      by simp
    from initChildren_keeps [OF construct_framed lt this] show ?thesis .
  next
    case False
    with i show ?thesis by (simp add: keeps_refl)
  qed
  from r have "keeps (nextCid s) s4 s'" by (rule Component_ready_keeps)
  with k34 have "keeps (nextCid s) s3 s'" by (rule keeps_trans)
  then have "el s' (nextCid s) = el s3 (nextCid s)" by (simp add: keeps_def)
  with ff c show ?thesis by simp
qed

lemma trigger_without_element:
  assumes "\<forall>e. el s c \<noteq> El e"
  shows "Component_trigger c ty b s = Inl TypeError"
  using assms by (cases "el s c") (simp_all add: Component_trigger_def Events_trigger_def)

lemma release_without_element:
  assumes "\<forall>e. el s c \<noteq> El e"
  shows "dispose_release c s = Inl TypeError"
proof -
  let ?s1 = "emit [ChildrenNulled c]
               (updComp c (\<lambda>r. r\<lparr>children' := None, childIndex' := None, childNameIndex' := None\<rparr>) s)"
  have e1: "el ?s1 c = el s c" by (simp add: el_def split: option.splits)
  with assms have "Component_off c None None ?s1 = Inl TypeError"
    by (cases "el s c") (simp_all add: Component_off_def Events_off_def)
  then show ?thesis by (simp add: dispose_release_def Let_def)
qed

text \<open>
  C10. A component constructed with merged options in which \<^verbatim>\<open>createEl\<close> is \<^verbatim>\<open>false\<close>
  and \<^verbatim>\<open>el\<close> is no element has no element when the constructor returns: \<^verbatim>\<open>el_\<close>
  was never assigned. Its \<^verbatim>\<open>dispose()\<close> then throws: triggering the \<^verbatim>\<open>dispose\<close> event
  dereferences the absent element and throws, and so does the part of \<^verbatim>\<open>dispose\<close> that
  removes the listeners and detaches the element, so the teardown does not complete
  whatever the budget.
\<close>

theorem dispose_without_element:
  assumes "construct n cl pl opts rdy s = Inr (c, s')"
    and "getProp (mergedOptions cl opts) ''createEl'' = JBool False"
    and "\<forall>e. getProp (mergedOptions cl opts) ''el'' \<noteq> JElem e"
  shows "el s' c = Undefined \<and>
         Component_trigger c ''dispose'' False s' = Inl TypeError \<and>
         dispose_release c s' = Inl TypeError \<and>
         dispose (Suc m) c s' = Inl TypeError"
proof -
  from construct_el [OF assms(1)] assms(2,3) have u: "el s' c = Undefined"
    by (auto split: jsval.splits)
  then have n: "\<forall>e. el s' c \<noteq> El e" by simp
  from trigger_without_element [OF n] release_without_element [OF n] u
  show ?thesis by simp
qed

theorem dispose_without_element_witness:
  "(\<exists>s'. construct 1 Component None (JObj [(''createEl'', JBool False)]) None initial = Inr (0, s') \<and>
         el s' 0 = Undefined \<and>
         Component_trigger 0 ''dispose'' False s' = Inl TypeError \<and>
         dispose_release 0 s' = Inl TypeError \<and>
         dispose 1 0 s' = Inl TypeError)"
proof -
  have a: "isOK (construct 1 Component None (JObj [(''createEl'', JBool False)]) None initial)"
    by code_simp
  have b: "fst (projr (construct 1 Component None (JObj [(''createEl'', JBool False)]) None initial)) = 0"
    by code_simp
  from a b obtain s' where
    c: "construct 1 Component None (JObj [(''createEl'', JBool False)]) None initial = Inr (0, s')"
    by (cases "construct 1 Component None (JObj [(''createEl'', JBool False)]) None initial")
       (auto simp: isOK_def)
  have m: "getProp (mergedOptions Component (JObj [(''createEl'', JBool False)])) ''createEl'' = JBool False"
    "\<forall>e. getProp (mergedOptions Component (JObj [(''createEl'', JBool False)])) ''el'' \<noteq> JElem e"
    by (simp_all add: mergedOptions_def mergeOptions_def Component_def getProp_def)
  from dispose_without_element [OF c m, of 0] c show ?thesis by simp
qed

subsection \<open>Children made from options; looking children up\<close>

text \<open>
  C6. The claim has a child entry whose value is \<^verbatim>\<open>null\<close> skipped, as the comment in
  \<^verbatim>\<open>options()\<close> says ("Disabled. Won't be initialized."). The code skips an entry only
  when its value is \<^verbatim>\<open>false\<close>: constructing a component with
  \<^verbatim>\<open>{children: {component: null}}\<close> makes a child named \<^verbatim>\<open>component\<close>, whereas
  \<^verbatim>\<open>{children: {component: false}}\<close> makes none.
\<close>

theorem initChildren_null_entry:
  "(case construct 2 Component None (JObj [(''children'', JObj [(''component'', JNull)])]) None initial of
      Inl e \<Rightarrow> False
    | Inr (c, s') \<Rightarrow>
        c = 0 \<and> children s' 0 = Some [1] \<and> getChild 0 ''component'' s' = Inr (Some 1) \<and>
        map_option name' (comps s' 1) = Some (Some ''component'')) \<and>
   (case construct 2 Component None (JObj [(''children'', JObj [(''component'', JBool False)])]) None initial of
      Inl e \<Rightarrow> False
    | Inr (c, s') \<Rightarrow> c = 0 \<and> children s' 0 = Some [] \<and> getChild 0 ''component'' s' = Inr None)"
  by code_simp






subsection \<open>How long a child stays retrievable\<close>








subsection \<open>The last part of a teardown\<close>

lemma others_simps [simp]:
  "others (updEl e f s) = others s"
  "others (updComp c g s) = others s"
  "others (emit xs s) = others s"
  "others (Dom_removeChild e s) = others s"
  "others (Dom_removeElData e s) = others s"
  by (simp_all add: others_def updEl_def updComp_def emit_def Dom_removeChild_def Dom_removeElData_def)



lemma comps_released [simp]:
  "comps (released c e s) =
     (comps s)(c := map_option (\<lambda>r. r\<lparr>children' := None, childIndex' := None,
                                        childNameIndex' := None, el' := Null\<rparr>) (comps s c))"
  by (cases "parentOf s e = None"; cases "comps s c") (simp_all add: released_def)

lemma els_released [simp]:
  "els (released c e s) =
     (els s)(e := map_option (\<lambda>x. x\<lparr>handlers := (\<lambda>t. []), parentNode := None\<rparr>) (els s e))"
  by (cases "els s e") (auto simp: released_def parentOf_def fun_eq_iff)

lemma trace_released [simp]:
  "trace (released c e s) =
     trace s @ [ChildrenNulled c, ListenersCleared e] @
       (if parentOf s e = None then [] else [Detached e]) @ [DataReleased e, ElNulled c]"
  by (simp add: released_def)


subsection \<open>Trees of components\<close>

lemma fnodes_simps [simp]:
  "fnodes [] = []" "fnodes (t # ts) = nodes t @ fnodes ts" "fnodes (xs @ ys) = fnodes xs @ fnodes ys"
  by (simp_all add: fnodes_def)

lemma felems_simps [simp]:
  "felems [] = []" "felems (t # ts) = elems t @ felems ts" "felems (xs @ ys) = felems xs @ felems ys"
  by (simp_all add: felems_def)

lemma nodes_fnodes [simp]: "nodes (CNode c e ks) = c # fnodes ks"
  by (simp add: fnodes_def)

lemma elems_felems [simp]: "elems (CNode c e ks) = e # felems ks"
  by (simp add: felems_def)

declare nodes.simps [simp del] elems.simps [simp del]

lemma in_fnodes: "t \<in> set ts \<Longrightarrow> set (nodes t) \<subseteq> set (fnodes ts)"
  by (auto simp: fnodes_def)

lemma in_felems: "t \<in> set ts \<Longrightarrow> set (elems t) \<subseteq> set (felems ts)"
  by (auto simp: felems_def)

lemma quiet_cong:
  assumes "\<forall>c\<in>set (nodes t). comps s' c = comps s c" "\<forall>e\<in>set (elems t). els s' e = els s e"
  shows "quiet s' t = quiet s t"
  using assms
proof (induction t)
  case (CNode c e ks)
  have k: "list_all (quiet s') ks = list_all (quiet s) ks"
    unfolding list_all_iff
  proof (rule ball_cong [OF refl])
    fix k assume k: "k \<in> set ks"
    show "quiet s' k = quiet s k"
    proof (rule CNode.IH [OF k])
      show "\<forall>c\<in>set (nodes k). comps s' c = comps s c"
        using CNode.prems(1) in_fnodes [OF k] by auto
      show "\<forall>e\<in>set (elems k). els s' e = els s e"
        using CNode.prems(2) in_felems [OF k] by auto
    qed
  qed
  from CNode.prems have "comps s' c = comps s c" "els s' e = els s e" by simp_all
  then have "el s' c = el s c" "children s' c = children s c"
    "listeners s' e ''dispose'' = listeners s e ''dispose''"
    by (simp_all add: el_def children_def listeners_def)
  with k \<open>els s' e = els s e\<close> show ?case by simp
qed

lemma disposeOrder_cong:
  assumes "\<forall>e\<in>set (elems t). els s' e = els s e"
  shows "disposeOrder s' t = disposeOrder s t"
  using assms
proof (induction t)
  case (CNode c e ks)
  have k: "map (disposeOrder s') (rev ks) = map (disposeOrder s) (rev ks)"
  proof (rule map_cong [OF refl])
    fix k assume "k \<in> set (rev ks)"
    then have k: "k \<in> set ks" by simp
    show "disposeOrder s' k = disposeOrder s k"
      using CNode.IH [OF k] CNode.prems in_felems [OF k] by auto
  qed
  from k have k': "concat (map (disposeOrder s') (rev ks)) = concat (map (disposeOrder s) (rev ks))"
    by (rule arg_cong)
  from CNode.prems have "els s' e = els s e" by simp
  then have l: "listeners s' e ''dispose'' = listeners s e ''dispose''"
    and p: "parentOf s' e = parentOf s e"
    by (simp_all add: listeners_def parentOf_def)
  show ?case by (simp only: disposeOrder.simps k' l p)
qed





subsection \<open>Tearing down the children\<close>





subsection \<open>Tearing down a tree\<close>


lemma quiet_emit [simp]: "quiet (emit xs s) = quiet s"
  by (rule ext, rule quiet_cong) simp_all

lemma disposeOrder_emit [simp]: "disposeOrder (emit xs s) = disposeOrder s"
  by (rule ext, rule disposeOrder_cong) simp



subsection \<open>The order of a teardown\<close>




subsection \<open>Registering and removing listeners\<close>

lemma guid_of_cong: "fguid s' = fguid s \<Longrightarrow> guid_of s' f = guid_of s f"
  by (induction s f rule: guid_of.induct) simp_all


lemma addListener_simps [simp]:
  "comps (addListener e ty h s) = comps s"
  "el (addListener e ty h s) = el s"
  "children (addListener e ty h s) = children s"
  "trace (addListener e ty h s) = trace s"
  "timers (addListener e ty h s) = timers s"
  "nextTimer (addListener e ty h s) = nextTimer s"
  "fguid (addListener e ty h s) = fguid s"
  "guid_of (addListener e ty h s) = guid_of s"
  "parentOf (addListener e ty h s) = parentOf s"
  "(els (addListener e ty h s) k = None) = (els s k = None)"
  "k \<noteq> e \<Longrightarrow> els (addListener e ty h s) k = els s k"
proof -
  show "guid_of (addListener e ty h s) = guid_of s"
    by (rule ext, rule guid_of_cong) (simp add: addListener_def updEl_def)
qed (auto simp: addListener_def updEl_def parentOf_def el_def children_def fun_eq_iff
          split: option.splits)

lemma listeners_addListener [simp]:
  "listeners (addListener e ty h s) k ty' =
     (if k = e \<and> ty' = ty \<and> els s e \<noteq> None then listeners s e ty @ [h] else listeners s k ty')"
  by (auto simp: addListener_def listeners_def split: option.splits)

lemma dropGuid_simps [simp]:
  "comps (dropGuid e ty g s) = comps s"
  "el (dropGuid e ty g s) = el s"
  "children (dropGuid e ty g s) = children s"
  "trace (dropGuid e ty g s) = trace s"
  "timers (dropGuid e ty g s) = timers s"
  "fguid (dropGuid e ty g s) = fguid s"
  "parentOf (dropGuid e ty g s) = parentOf s"
  "(els (dropGuid e ty g s) k = None) = (els s k = None)"
  "k \<noteq> e \<Longrightarrow> els (dropGuid e ty g s) k = els s k"
  by (auto simp: dropGuid_def updEl_def parentOf_def el_def children_def fun_eq_iff
           split: option.splits)

lemma guid_of_dropGuid [simp]: "guid_of (dropGuid e ty g s) = guid_of s"
  by (rule ext, rule guid_of_cong) simp

lemma listeners_dropGuid [simp]:
  "listeners (dropGuid e ty g s) k ty' =
     (if k = e \<and> ty' = ty then filter (\<lambda>h. fst h \<noteq> g) (listeners s e ty) else listeners s k ty')"
  by (auto simp: dropGuid_def listeners_def split: option.splits)

lemma guid_of_emit [simp]: "guid_of (emit xs s) = guid_of s"
  by (rule ext, rule guid_of_cong) (simp add: emit_def)









lemma window_clearTimer_simps [simp]:
  "comps (window_clearTimer n s) = comps s"
  "els (window_clearTimer n s) = els s"
  "el (window_clearTimer n s) = el s"
  "children (window_clearTimer n s) = children s"
  "trace (window_clearTimer n s) = trace s"
  "listeners (window_clearTimer n s) = listeners s"
  "parentOf (window_clearTimer n s) = parentOf s"
  "timers (window_clearTimer n s) = (timers s)(n := None)"
  by (simp_all add: window_clearTimer_def el_def children_def listeners_def parentOf_def fun_eq_iff)

lemma guid_of_window_clearTimer [simp]: "guid_of (window_clearTimer n s) = guid_of s"
  by (rule ext, rule guid_of_cong) (simp add: window_clearTimer_def)

lemma timers_emit [simp]: "timers (emit xs s) = timers s"
  by (simp add: emit_def)

subsection \<open>Timers are never rescheduled\<close>

lemma noNewTimer_refl [simp]: "noNewTimer s s"
  by (simp add: noNewTimer_def)


lemma noNewTimer_eq: "timers s' = timers s \<Longrightarrow> noNewTimer s s'"
  by (simp add: noNewTimer_def)

lemma timers_updEl [simp]: "timers (updEl e f s) = timers s"
  by (simp add: updEl_def)















lemma scheduled_simps [simp]:
  "comps (scheduled k f s) = comps s"
  "els (scheduled k f s) = els s"
  "el (scheduled k f s) = el s"
  "children (scheduled k f s) = children s"
  "trace (scheduled k f s) = trace s"
  "listeners (scheduled k f s) = listeners s"
  "parentOf (scheduled k f s) = parentOf s"
  "timers (scheduled k f s) = (timers s)(nextTimer s \<mapsto> (k, f))"
  by (simp_all add: scheduled_def window_setTimer_def el_def children_def listeners_def
      parentOf_def fun_eq_iff)

lemma guid_of_scheduled [simp]: "guid_of (scheduled k f s) = guid_of s"
  by (rule ext, rule guid_of_cong) (simp add: scheduled_def window_setTimer_def)


subsection \<open>The state after scheduling a timer\<close>

lemma guid_of_TimerDispose [simp]: "guid_of s (TimerDispose k n) = Some (timerGuid k n)"
  by (cases k) (simp_all add: timerGuid_def)

lemma nextTimer_scheduled [simp]: "nextTimer (scheduled k f s) = Suc (nextTimer s)"
  by (simp add: scheduled_def window_setTimer_def)









subsection \<open>Timers and teardown\<close>




subsection \<open>Listening to another component\<close>







subsection \<open>A teardown with one more listener\<close>







subsection \<open>The target is disposed first\<close>

lemma filter_guid_snoc [simp]: "filter (\<lambda>h. fst h \<noteq> g) (hs @ [(g, x)]) = filter (\<lambda>h. fst h \<noteq> g) hs"
  by simp



subsection \<open>The listening component is disposed first\<close>



subsection \<open>Subscriptions and teardown\<close>



end
